theory Spec2Isabelle
  imports Complex_Main
begin

section \<open>Cell values\<close>

text \<open>
  A cell of a DataFrame holds a Python object. The model has the objects the module
  inspects: \<open>None\<close>, \<open>str\<close>, \<open>bool\<close>, \<open>int\<close> and \<open>float\<close>. A finite float is
  modelled by its exact rational value; the floats \<open>nan\<close>, \<open>inf\<close> (\<open>PInf True\<close>) and
  \<open>-inf\<close> (\<open>PInf False\<close>) have constructors of their own. Strings are read as ASCII
  text.
\<close>

datatype pyval = PNone | PStr string | PBool bool | PInt int | PFloat rat | PNaN | PInf bool

text \<open>\<open>re.search("<class '(?P<t>\w+)'>", str(type(value))).group('t')\<close>\<close>

fun type_name :: "pyval \<Rightarrow> string" where
  "type_name PNone = ''NoneType''"
| "type_name (PStr s) = ''str''"
| "type_name (PBool b) = ''bool''"
| "type_name (PInt i) = ''int''"
| "type_name (PFloat x) = ''float''"
| "type_name PNaN = ''float''"
| "type_name (PInf b) = ''float''"

text \<open>The numeric value of a number; \<open>bool\<close> is a subclass of \<open>int\<close> with values 0 and 1.\<close>

fun num_of :: "pyval \<Rightarrow> rat option" where
  "num_of (PBool b) = Some (if b then 1 else 0)"
| "num_of (PInt i) = Some (of_int i)"
| "num_of (PFloat x) = Some x"
| "num_of v = None"

text \<open>
  Python's \<open>==\<close>: numbers compare by value across \<open>bool\<close>, \<open>int\<close> and \<open>float\<close>,
  strings with strings, \<open>None\<close> with \<open>None\<close>, an infinity equals itself only, and
  \<open>nan\<close> equals nothing, itself included.
\<close>

fun py_eq :: "pyval \<Rightarrow> pyval \<Rightarrow> bool" where
  "py_eq PNone PNone = True"
| "py_eq (PStr s) (PStr t) = (s = t)"
| "py_eq (PInf a) (PInf b) = (a = b)"
| "py_eq a b = (case (num_of a, num_of b) of (Some x, Some y) \<Rightarrow> x = y | _ \<Rightarrow> False)"

text \<open>pandas' \<open>isnull\<close>: \<open>None\<close> and \<open>nan\<close> are the missing values.\<close>

definition isnull :: "pyval \<Rightarrow> bool" where
  "isnull v = (v = PNone \<or> v = PNaN)"

section \<open>DataFrames\<close>

text \<open>
  A DataFrame is its column labels and its rows, each row holding one cell per column.
  Rows are identified by position; the operations below that pandas aligns by row label
  are always computed from the very frame they are stored into.
\<close>

record frame =
  columns :: "string list"
  rows :: "pyval list list"

definition wf_frame :: "frame \<Rightarrow> bool" where
  "wf_frame f = (distinct (columns f) \<and> list_all (\<lambda>r. length r = length (columns f)) (rows f))"

fun index_of :: "'a \<Rightarrow> 'a list \<Rightarrow> nat" where
  "index_of x [] = 0"
| "index_of x (y # ys) = (if x = y then 0 else Suc (index_of x ys))"

text \<open>\<open>frame[c]\<close> for a label \<open>c\<close> of the frame: the cells of that column.\<close>

definition getcol :: "frame \<Rightarrow> string \<Rightarrow> pyval list" where
  "getcol f c = map (\<lambda>r. r ! index_of c (columns f)) (rows f)"

text \<open>
  \<open>frame[c] = series\<close>: an existing column is overwritten, a new one is appended after
  all others.
\<close>

definition setcol :: "frame \<Rightarrow> string \<Rightarrow> pyval list \<Rightarrow> frame" where
  "setcol f c vs =
     (if c \<in> set (columns f)
      then f\<lparr>rows := map2 (\<lambda>r v. r[index_of c (columns f) := v]) (rows f) vs\<rparr>
      else \<lparr>columns = columns f @ [c], rows = map2 (\<lambda>r v. r @ [v]) (rows f) vs\<rparr>)"

datatype error =
    NotATable
  | MethodsUnavailable
  | CannotDescribe
  | DuplicatedKeyError
  | DuplicatedValueError
  | LocKeyError
  | NotInHeaders
  | NotConverted string string string string
  | FloatOverflowError
  | FillnaValueError

section \<open>The description\<close>

text \<open>
  \<open>flagged.replace({False: 0, True: 1, "No": 0, "Yes": 1, "None": None})\<close>: a cell equal
  (by \<open>==\<close>) to a key is replaced by the key's value.
\<close>

definition replace_val :: "pyval \<Rightarrow> pyval" where
  "replace_val v =
     (if py_eq v (PBool False) then PInt 0
      else if py_eq v (PBool True) then PInt 1
      else if py_eq v (PStr ''No'') then PInt 0
      else if py_eq v (PStr ''Yes'') then PInt 1
      else if py_eq v (PStr ''None'') then PNone
      else v)"

definition replace_frame :: "frame \<Rightarrow> frame" where
  "replace_frame f = f\<lparr>rows := map (map replace_val) (rows f)\<rparr>"

text \<open>
  Of the description the module reads the column labels and the row \<open>count\<close> only
  (the number of cells of the column that are not missing); the statistics rows and the
  row \<open>dtypes\<close> are never read and are not modelled. \<open>describe\<close> raises on a frame
  without columns.
\<close>

record description =
  dcolumns :: "string list"
  dcount :: "(string \<times> nat) list"

definition count_nonnull :: "pyval list \<Rightarrow> nat" where
  "count_nonnull vs = length (filter (\<lambda>v. \<not> isnull v) vs)"

definition describe_frame :: "frame \<Rightarrow> error + description" where
  "describe_frame f =
     (if columns f = [] then Inl CannotDescribe
      else Inr \<lparr>dcolumns = columns f,
                dcount = map (\<lambda>c. (c, count_nonnull (getcol f c))) (columns f)\<rparr>)"

text \<open>
  \<open>description.append(self.df.dtypes.rename("dtypes"))\<close>: the labels of \<open>self.df\<close> that
  the description lacks become new columns of it, after its own.
\<close>

definition append_dtypes :: "description \<Rightarrow> string list \<Rightarrow> description" where
  "append_dtypes d cs = d\<lparr>dcolumns := dcolumns d @ filter (\<lambda>c. c \<notin> set (dcolumns d)) cs\<rparr>"

section \<open>The object store and the engine\<close>

text \<open>
  DataFrames are mutable objects that the engine and its caller may share, so they live
  in a store and are passed by reference. \<open>alloc\<close> creates a new object.
\<close>

type_synonym ref = nat
type_synonym store = "frame list"

definition alloc :: "store \<Rightarrow> frame \<Rightarrow> ref \<times> store" where
  "alloc s f = (length s, s @ [f])"

record engine =
  df :: ref
  methods :: "string list"
  flagged :: ref
  description :: description
  unique_identifiers :: "string list"

definition METHODS :: "string list" where
  "METHODS = [''duplicates'', ''null'']"

text \<open>The \<open>table\<close> argument of the constructor: a DataFrame, a dict (given as the frame
  that \<open>pandas.DataFrame(table)\<close> builds from it), or anything else.\<close>

datatype table_arg = TableFrame ref | TableDict frame | TableOther

text \<open>The optional \<open>df\<close> argument of the methods: \<open>None\<close>, a DataFrame, or an object
  that is neither.\<close>

datatype df_arg = NoDf | Df ref | NotDf

definition describe_with_dtypes :: "frame \<Rightarrow> frame \<Rightarrow> error + description" where
  "describe_with_dtypes fl sdf =
     (case describe_frame (replace_frame fl) of
        Inl e \<Rightarrow> Inl e
      | Inr d \<Rightarrow> Inr (append_dtypes d (columns sdf)))"

text \<open>\<open>__self_or_none__\<close>: the flagged frame is the engine's own object, or a fresh deep
  copy of the DataFrame passed in.\<close>

definition self_or_none :: "engine \<Rightarrow> df_arg \<Rightarrow> store \<Rightarrow> (error + ref \<times> description) \<times> store" where
  "self_or_none eng arg s =
     (let (fl, s1) = (case arg of Df r \<Rightarrow> alloc s (s ! r) | _ \<Rightarrow> (flagged eng, s))
      in case describe_with_dtypes (s1 ! fl) (s1 ! df eng) of
           Inl e \<Rightarrow> (Inl e, s1)
         | Inr d \<Rightarrow> (Inr (fl, d), s1))"

definition count_of :: "description \<Rightarrow> string \<Rightarrow> nat" where
  "count_of d c = (case map_of (dcount d) c of Some n \<Rightarrow> n | None \<Rightarrow> 0)"

text \<open>\<open>__init__\<close>. In the call of \<open>__self_or_none__\<close> the argument is \<open>self.df\<close>, a
  DataFrame, so the copying branch is the one taken.\<close>

definition init :: "store \<Rightarrow> table_arg \<Rightarrow> string list option \<Rightarrow> error + engine \<times> store" where
  "init s table ms =
     (let methods0 = (case ms of None \<Rightarrow> METHODS | Some m \<Rightarrow> m) in
      case (case table of
              TableFrame r \<Rightarrow> Inr (r, s)
            | TableDict t \<Rightarrow> Inr (alloc s t)
            | TableOther \<Rightarrow> Inl NotATable) of
        Inl e \<Rightarrow> Inl e
      | Inr (d, s1) \<Rightarrow>
          if \<not> list_all (\<lambda>m. m \<in> set METHODS) methods0 then Inl MethodsUnavailable
          else
            let (fl, s2) = alloc s1 (s1 ! d) in
            case describe_with_dtypes (s2 ! fl) (s2 ! d) of
              Inl e \<Rightarrow> Inl e
            | Inr desc \<Rightarrow>
                let count_max = Max (set (map snd (dcount desc)));
                    cols = columns (s2 ! d)
                in Inr (\<lparr>df = d, methods = methods0, flagged = fl, description = desc,
                         unique_identifiers =
                           filter (\<lambda>column. column \<noteq> hd cols \<and>
                                     (of_nat (count_of desc column) :: rat) \<ge> (1 / 2) * of_nat count_max)
                                  cols\<rparr>,
                        s2))"

section \<open>Flagging\<close>

text \<open>
  \<open>DataFrame.duplicated(subset)\<close>. An empty frame gives an empty series. A label of
  \<open>subset\<close> that is no column raises \<open>KeyError\<close>. With one label in \<open>subset\<close> (and
  unique column labels) the result is \<open>Series.duplicated\<close> of that column, where a value
  is marked when an equal value came before it; \<open>None\<close> matches \<open>None\<close> and \<open>nan\<close>
  matches \<open>nan\<close>, but not each other. Otherwise the columns of the frame whose label
  is in \<open>subset\<close> are factorized one by one and the code lists are unpacked into
  \<open>labels, shape\<close>, which raises \<open>ValueError\<close> when no column was selected; a row is
  marked when an earlier row has the same code in every selected column, and all
  missing values of a column share one code.
\<close>

definition same_key :: "pyval \<Rightarrow> pyval \<Rightarrow> bool" where
  "same_key a b = ((a = PNone \<and> b = PNone) \<or> (a = PNaN \<and> b = PNaN) \<or> py_eq a b)"

definition same_code :: "pyval \<Rightarrow> pyval \<Rightarrow> bool" where
  "same_code a b = (if isnull a \<or> isnull b then isnull a \<and> isnull b else py_eq a b)"

fun mark_seen :: "('k \<Rightarrow> 'k \<Rightarrow> bool) \<Rightarrow> 'k list \<Rightarrow> 'k list \<Rightarrow> bool list" where
  "mark_seen same seen [] = []"
| "mark_seen same seen (k # ks) = list_ex (\<lambda>e. same e k) seen # mark_seen same (k # seen) ks"

definition subset_keys :: "frame \<Rightarrow> string list \<Rightarrow> pyval list list" where
  "subset_keys f subs =
     map (\<lambda>r. map (\<lambda>c. r ! index_of c (columns f)) (filter (\<lambda>c. c \<in> set subs) (columns f))) (rows f)"

definition duplicated :: "frame \<Rightarrow> string list \<Rightarrow> error + bool list" where
  "duplicated f subs =
     (if rows f = [] \<or> columns f = [] then Inr []
      else if \<not> list_all (\<lambda>c. c \<in> set (columns f)) subs then Inl DuplicatedKeyError
      else if length subs = 1 \<and> distinct (columns f)
        then Inr (mark_seen same_key [] (getcol f (hd subs)))
      else if filter (\<lambda>c. c \<in> set subs) (columns f) = [] then Inl DuplicatedValueError
      else Inr (mark_seen (list_all2 same_code) [] (subset_keys f subs)))"

text \<open>\<open>.replace({True: 1, False: 0})\<close> on the boolean series.\<close>

definition flag01 :: "bool \<Rightarrow> pyval" where
  "flag01 b = (if b then PInt 1 else PInt 0)"

text \<open>\<open>flagged.isnull().sum(axis=1)\<close>: the missing cells of each row, over all columns
  the frame has at that moment.\<close>

definition null_counts :: "frame \<Rightarrow> pyval list" where
  "null_counts f = map (\<lambda>r. PInt (int (length (filter isnull r)))) (rows f)"

definition flag :: "engine \<Rightarrow> df_arg \<Rightarrow> store \<Rightarrow> (error + ref) \<times> engine \<times> store" where
  "flag eng arg s =
     (case self_or_none eng arg s of
        (Inl e, s1) \<Rightarrow> (Inl e, eng, s1)
      | (Inr (fl, d), s1) \<Rightarrow>
          (case (if ''duplicates'' \<in> set (methods eng)
                 then (case duplicated (s1 ! fl) (unique_identifiers eng) of
                         Inl e \<Rightarrow> Inl e
                       | Inr m \<Rightarrow> Inr (s1[fl := setcol (s1 ! fl) ''duplicates'' (map flag01 m)]))
                 else Inr s1) of
             Inl e \<Rightarrow> (Inl e, eng, s1)
           | Inr s2 \<Rightarrow>
               let s3 = (if ''null'' \<in> set (methods eng)
                         then s2[fl := setcol (s2 ! fl) ''null'' (null_counts (s2 ! fl))]
                         else s2)
               in (Inr fl, if arg = NoDf then eng\<lparr>flagged := fl\<rparr> else eng, s3)))"

section \<open>Describing and cleaning\<close>

definition describe :: "engine \<Rightarrow> df_arg \<Rightarrow> store \<Rightarrow> (error + description) \<times> engine \<times> store" where
  "describe eng arg s =
     (case self_or_none eng arg s of
        (Inl e, s1) \<Rightarrow> (Inl e, eng, s1)
      | (Inr (fl, d), s1) \<Rightarrow>
          (Inr d, if arg = NoDf then eng\<lparr>description := d\<rparr> else eng, s1))"

text \<open>\<open>frame.loc[:, labels]\<close>: the columns named, in the order named; a label that is no
  column raises \<open>KeyError\<close>.\<close>

definition loc_columns :: "frame \<Rightarrow> string list \<Rightarrow> error + frame" where
  "loc_columns f cs =
     (if \<not> list_all (\<lambda>c. c \<in> set (columns f)) cs then Inl LocKeyError
      else Inr \<lparr>columns = cs,
                rows = map (\<lambda>r. map (\<lambda>c. r ! index_of c (columns f)) cs) (rows f)\<rparr>)"

text \<open>\<open>series.isin(values)\<close>: membership by \<open>==\<close>, where a missing value is found when
  the same missing value is among the values.\<close>

definition isin_match :: "pyval \<Rightarrow> pyval \<Rightarrow> bool" where
  "isin_match a b = ((a = PNone \<and> b = PNone) \<or> (a = PNaN \<and> b = PNaN) \<or> py_eq a b)"

definition isin :: "pyval \<Rightarrow> pyval list \<Rightarrow> bool" where
  "isin v vs = list_ex (isin_match v) vs"

text \<open>\<open>frame[mask]\<close>: the rows where the boolean mask holds.\<close>

definition select_rows :: "frame \<Rightarrow> bool list \<Rightarrow> frame" where
  "select_rows f keep = f\<lparr>rows := map fst (filter snd (zip (rows f) keep))\<rparr>"

definition clean :: "engine \<Rightarrow> df_arg \<Rightarrow> store \<Rightarrow> (error + ref) \<times> engine \<times> store" where
  "clean eng arg s =
     (case self_or_none eng arg s of
        (Inl e, s1) \<Rightarrow> (Inl e, eng, s1)
      | (Inr (fl, d), s1) \<Rightarrow>
          (case loc_columns (s1 ! fl) (dcolumns d) of
             Inl e \<Rightarrow> (Inl e, eng, s1)
           | Inr cleaned0 \<Rightarrow>
               let cleaned =
                     (if ''duplicates'' \<in> set (columns (s1 ! fl))
                      then let id_column = hd (columns (s1 ! fl));
                               unique_id = map snd (filter (\<lambda>(d, i). py_eq d (PInt 0))
                                             (zip (getcol (s1 ! fl) ''duplicates'')
                                                  (getcol (s1 ! fl) id_column)))
                           in select_rows cleaned0
                                (map (\<lambda>v. isin v unique_id) (getcol cleaned0 id_column))
                      else cleaned0);
                   (cr, s2) = alloc s1 cleaned
               in (Inr cr, if arg = NoDf then eng\<lparr>description := d\<rparr> else eng, s2)))"

section \<open>Formatting values\<close>

definition is_digit :: "char \<Rightarrow> bool" where
  "is_digit c = (c \<in> set ''0123456789'')"

text \<open>\<open>str.isnumeric\<close> and \<open>str.isdecimal\<close>; on ASCII text both ask for a non-empty
  string of digits.\<close>

definition isnumeric :: "string \<Rightarrow> bool" where
  "isnumeric s = (s \<noteq> [] \<and> list_all is_digit s)"

definition isdecimal :: "string \<Rightarrow> bool" where
  "isdecimal s = (s \<noteq> [] \<and> list_all is_digit s)"

text \<open>\<open>int(s)\<close> for a string of digits.\<close>

definition int_of_str :: "string \<Rightarrow> int" where
  "int_of_str s = foldl (\<lambda>n c. 10 * n + int (index_of c ''0123456789'')) 0 s"

text \<open>\<open>str(i)\<close> for an integer.\<close>

fun digits_of :: "nat \<Rightarrow> string" where
  "digits_of n =
     (if n < 10 then [''0123456789'' ! n]
      else digits_of (n div 10) @ [''0123456789'' ! (n mod 10)])"

definition str_of_int :: "int \<Rightarrow> string" where
  "str_of_int i = (if i < 0 then CHR ''-'' # digits_of (nat (- i)) else digits_of (nat i))"

text \<open>\<open>str(value)\<close>. The rendering of a finite float is the interpreter's and is a
  parameter, \<open>float_repr\<close>.\<close>

fun py_str :: "(rat \<Rightarrow> string) \<Rightarrow> pyval \<Rightarrow> string" where
  "py_str float_repr PNone = ''None''"
| "py_str float_repr (PStr s) = s"
| "py_str float_repr (PBool b) = (if b then ''True'' else ''False'')"
| "py_str float_repr (PInt i) = str_of_int i"
| "py_str float_repr (PFloat x) = float_repr x"
| "py_str float_repr PNaN = ''nan''"
| "py_str float_repr (PInf b) = (if b then ''inf'' else ''-inf'')"

fun is_str :: "pyval \<Rightarrow> bool" where
  "is_str (PStr s) = True"
| "is_str v = False"

fun is_bool :: "pyval \<Rightarrow> bool" where
  "is_bool (PBool b) = True"
| "is_bool v = False"

text \<open>\<open>isinstance(value, int)\<close> holds of a \<open>bool\<close> too.\<close>

fun is_int :: "pyval \<Rightarrow> bool" where
  "is_int (PInt i) = True"
| "is_int (PBool b) = True"
| "is_int v = False"

fun is_float :: "pyval \<Rightarrow> bool" where
  "is_float (PFloat x) = True"
| "is_float PNaN = True"
| "is_float (PInf b) = True"
| "is_float v = False"

fun str_val :: "pyval \<Rightarrow> string" where
  "str_val (PStr s) = s"
| "str_val v = []"

fun int_val :: "pyval \<Rightarrow> int" where
  "int_val (PInt i) = i"
| "int_val (PBool b) = (if b then 1 else 0)"
| "int_val v = 0"

text \<open>
  The float nearest to an integer: integers below \<open>2^53\<close> in magnitude are floats; a
  larger one is rounded to 53 significant bits, a tie going to the even neighbour.
\<close>

function bit_length :: "int \<Rightarrow> nat" where
  "bit_length n = (if n \<le> 0 then 0 else Suc (bit_length (n div 2)))"
  by pat_completeness auto
termination
  by (relation "measure nat") auto

declare bit_length.simps [simp del]

definition round_nat :: "int \<Rightarrow> int" where
  "round_nat a =
     (if a < 2 ^ 53 then a
      else let e = bit_length a - 53; q = a div 2 ^ e; r = a mod 2 ^ e
           in (if 2 ^ e < 2 * r \<or> (2 * r = 2 ^ e \<and> odd q) then q + 1 else q) * 2 ^ e)"

definition round_float :: "int \<Rightarrow> int" where
  "round_float i = (if i < 0 then - round_nat (- i) else round_nat i)"

text \<open>\<open>float(i)\<close> for an \<open>int\<close> raises \<open>OverflowError\<close> beyond the largest float;
  \<open>float(s)\<close> for a string of digits gives \<open>inf\<close> there.\<close>

definition float_of_int :: "int \<Rightarrow> error + pyval" where
  "float_of_int i =
     (if 2 ^ 1024 \<le> \<bar>round_float i\<bar> then Inl FloatOverflowError
      else Inr (PFloat (of_int (round_float i))))"

definition float_of_str :: "string \<Rightarrow> pyval" where
  "float_of_str s =
     (if 2 ^ 1024 \<le> round_float (int_of_str s) then PInf True
      else PFloat (of_int (round_float (int_of_str s))))"

text \<open>\<open>float.is_integer\<close> and \<open>int(value)\<close> on floats.\<close>

definition float_is_integer :: "pyval \<Rightarrow> bool" where
  "float_is_integer v = (case v of PFloat x \<Rightarrow> of_int (floor x) = x | _ \<Rightarrow> False)"

definition int_of_float :: "pyval \<Rightarrow> int" where
  "int_of_float v = (case v of PFloat x \<Rightarrow> floor x | _ \<Rightarrow> 0)"

text \<open>The inner function \<open>dtype_change\<close> of \<open>values_format\<close>, with the enclosing
  \<open>fill_empty\<close> as a parameter.\<close>

definition dtype_change ::
    "(rat \<Rightarrow> string) \<Rightarrow> pyval \<Rightarrow> pyval \<Rightarrow> string \<Rightarrow> string \<Rightarrow> error + pyval" where
  "dtype_change float_repr fill_empty v column dtype_requested =
     (if v = PNone \<or> py_eq v (PStr []) \<or> \<not> py_eq v v then Inr fill_empty
      else
        let type_current = type_name v in
        if type_current \<noteq> dtype_requested then
          if is_str v then
            if dtype_requested = ''int'' \<and> isnumeric (str_val v) then Inr (PInt (int_of_str (str_val v)))
            else if dtype_requested = ''float'' \<and> isdecimal (str_val v)
              then Inr (float_of_str (str_val v))
            else if dtype_requested = ''yn'' then
              if v = PStr ''1'' \<or> v = PStr ''True'' then Inr (PStr ''Yes'')
              else if v = PStr ''0'' \<or> v = PStr ''False'' then Inr (PStr ''No'')
              else Inr v
            else Inr v
          else if is_bool v then
            if dtype_requested = ''yn'' then
              if v = PBool True then Inr (PStr ''Yes'')
              else Inr (PStr ''No'')
            else Inr v
          else if is_int v \<and> dtype_requested = ''float'' then float_of_int (int_val v)
          else if is_float v \<and> dtype_requested = ''int'' \<and> float_is_integer v
            then Inr (PInt (int_of_float v))
          else if dtype_requested = ''str'' then Inr (PStr (py_str float_repr v))
          else Inl (NotConverted column type_current (py_str float_repr v) dtype_requested)
        else Inr v)"

text \<open>\<open>__check_with_headers__\<close> on the keys of the dict \<open>columns_dtypes\<close>.\<close>

definition check_with_headers :: "string list \<Rightarrow> frame \<Rightarrow> error + unit" where
  "check_with_headers values_to_check dataframe =
     (if list_ex (\<lambda>key. key \<notin> set (columns dataframe)) values_to_check then Inl NotInHeaders
      else Inr ())"

text \<open>\<open>series.apply(f)\<close>: the cells in order; the first exception ends the call.\<close>

fun apply_series :: "(pyval \<Rightarrow> error + pyval) \<Rightarrow> pyval list \<Rightarrow> error + pyval list" where
  "apply_series f [] = Inr []"
| "apply_series f (v # vs) =
     (case f v of
        Inl e \<Rightarrow> Inl e
      | Inr w \<Rightarrow> (case apply_series f vs of Inl e \<Rightarrow> Inl e | Inr ws \<Rightarrow> Inr (w # ws)))"

text \<open>
  The dtype pandas infers for a list of objects (the result of \<open>apply\<close>, and the object
  columns \<open>fillna\<close> returns). With a string or a bool among them, or an \<open>int\<close> outside
  the 64-bit ranges, the objects stay as they are. Otherwise, with a float among them,
  or a \<open>None\<close> beside an \<open>int\<close>, the column is float64: every \<open>int\<close> becomes the nearest
  float and every \<open>None\<close> becomes \<open>nan\<close>. Integers beyond the float range are outside
  the model here.
\<close>

definition out_of_int64 :: "pyval list \<Rightarrow> bool" where
  "out_of_int64 vs =
     (list_ex (\<lambda>v. is_int v \<and> (int_val v < - (2 ^ 63) \<or> 2 ^ 64 \<le> int_val v)) vs \<or>
      (list_ex (\<lambda>v. is_int v \<and> 2 ^ 63 \<le> int_val v) vs \<and> list_ex (\<lambda>v. is_int v \<and> int_val v < 0) vs))"

definition converts :: "pyval list \<Rightarrow> bool" where
  "converts vs =
     (\<not> list_ex is_str vs \<and> \<not> list_ex is_bool vs \<and> \<not> out_of_int64 vs \<and>
      (list_ex is_float vs \<or> (list_ex (\<lambda>v. v = PNone) vs \<and> list_ex is_int vs)))"

fun to_float64 :: "pyval \<Rightarrow> pyval" where
  "to_float64 (PInt i) = PFloat (of_int (round_float i))"
| "to_float64 PNone = PNaN"
| "to_float64 v = v"

definition infer_objects :: "pyval list \<Rightarrow> pyval list" where
  "infer_objects vs = (if converts vs then map to_float64 vs else vs)"

text \<open>The loop over \<open>columns_dtypes.items()\<close>: each column is converted, and the series
  that \<open>apply\<close> returns, with the dtype inferred for it, is written back into the
  DataFrame object itself.\<close>

fun format_columns ::
    "(rat \<Rightarrow> string) \<Rightarrow> pyval \<Rightarrow> (string \<times> string) list \<Rightarrow> ref \<Rightarrow> store \<Rightarrow> (error + unit) \<times> store" where
  "format_columns float_repr fill_empty [] r s = (Inr (), s)"
| "format_columns float_repr fill_empty ((column, column_dtype) # cds) r s =
     (case apply_series (\<lambda>x. dtype_change float_repr fill_empty x column column_dtype)
             (getcol (s ! r) column) of
        Inl e \<Rightarrow> (Inl e, s)
      | Inr vs \<Rightarrow>
          format_columns float_repr fill_empty cds r
            (s[r := setcol (s ! r) column (infer_objects vs)]))"

text \<open>
  \<open>df.fillna(value)\<close>: a new frame in which every missing cell is replaced and each
  column then has the dtype inferred for it, so that an \<open>int\<close> filled into a float64
  column is stored as a float. The value \<open>None\<close> raises \<open>ValueError\<close>. Columns are
  taken to have the dtype that pandas infers for their cells.
\<close>

definition fill_column :: "pyval list \<Rightarrow> pyval \<Rightarrow> pyval list" where
  "fill_column vs v = map (\<lambda>x. if isnull x then v else x) vs"

definition fill_cell :: "frame \<Rightarrow> pyval \<Rightarrow> string \<Rightarrow> pyval \<Rightarrow> pyval" where
  "fill_cell f v c x =
     (let y = (if isnull x then v else x)
      in if converts (fill_column (getcol f c) v) then to_float64 y else y)"

definition fillna :: "frame \<Rightarrow> pyval \<Rightarrow> error + frame" where
  "fillna f v =
     (if v = PNone then Inl FillnaValueError
      else Inr (f\<lparr>rows := map (\<lambda>r. map2 (fill_cell f v) (columns f) r) (rows f)\<rparr>))"

definition values_format ::
    "(rat \<Rightarrow> string) \<Rightarrow> engine \<Rightarrow> (string \<times> string) list \<Rightarrow> df_arg \<Rightarrow> pyval \<Rightarrow> store
       \<Rightarrow> (error + ref) \<times> engine \<times> store" where
  "values_format float_repr eng columns_dtypes arg fill_empty s =
     (let r = (case arg of Df r' \<Rightarrow> r' | _ \<Rightarrow> df eng) in
      case check_with_headers (map fst columns_dtypes) (s ! r) of
        Inl e \<Rightarrow> (Inl e, eng, s)
      | Inr u \<Rightarrow>
          (case format_columns float_repr fill_empty columns_dtypes r s of
             (Inl e, s1) \<Rightarrow> (Inl e, eng, s1)
           | (Inr u', s1) \<Rightarrow>
               (case fillna (s1 ! r) fill_empty of
                  Inl e \<Rightarrow> (Inl e, eng, s1)
                | Inr filled \<Rightarrow> let (r2, s2) = alloc s1 filled in (Inr r2, eng, s2))))"

section \<open>Sequences of calls\<close>

datatype call =
    CallFlag df_arg
  | CallDescribe df_arg
  | CallClean df_arg
  | CallValuesFormat "(string \<times> string) list" df_arg pyval

fun step :: "(rat \<Rightarrow> string) \<Rightarrow> call \<Rightarrow> engine \<times> store \<Rightarrow> engine \<times> store" where
  "step float_repr (CallFlag arg) (eng, s) = snd (flag eng arg s)"
| "step float_repr (CallDescribe arg) (eng, s) = snd (describe eng arg s)"
| "step float_repr (CallClean arg) (eng, s) = snd (clean eng arg s)"
| "step float_repr (CallValuesFormat cds arg fill_empty) (eng, s) =
     snd (values_format float_repr eng cds arg fill_empty s)"

definition run :: "(rat \<Rightarrow> string) \<Rightarrow> call list \<Rightarrow> engine \<times> store \<Rightarrow> engine \<times> store" where
  "run float_repr calls st = fold (step float_repr) calls st"

section \<open>The usage example of the notebook\<close>

text \<open>The table of the notebook's usage example.\<close>

definition example_table :: frame where
  "example_table =
     \<lparr>columns = [''hyperlink'', ''type_of_property'', ''postcode'', ''garden'', ''surface''],
      rows = [[PStr ''http'', PStr ''house'', PStr ''1000'', PBool True, PInt 1],
              [PStr ''htt'', PStr ''apartment'', PStr ''1050'', PBool False, PInt 2],
              [PStr ''http2'', PStr ''apartment'', PStr ''1050'', PBool False, PInt 2],
              [PStr ''htt2'', PNone, PNone, PNone, PInt 4],
              [PStr ''http'', PNone, PNone, PNone, PInt 3]]\<rparr>"

text \<open>The DataFrame that the \<open>table\<close> argument of the constructor stands for.\<close>

definition table_of :: "store \<Rightarrow> table_arg \<Rightarrow> frame option" where
  "table_of s table =
     (case table of
        TableFrame r \<Rightarrow> (if r < length s then Some (s ! r) else None)
      | TableDict t \<Rightarrow> Some t
      | TableOther \<Rightarrow> None)"

text \<open>A table with a column whose cells are mostly the text \<open>"None"\<close>, a column that is
  mostly missing, and a column that is half missing.\<close>

definition threshold_table :: frame where
  "threshold_table =
     \<lparr>columns = [''id'', ''x'', ''y'', ''z''],
      rows = [[PStr ''a'', PStr ''None'', PStr ''u'', PStr ''v''],
              [PStr ''b'', PStr ''None'', PNone, PStr ''w''],
              [PStr ''c'', PStr ''None'', PNone, PNone],
              [PStr ''d'', PStr ''k'', PNone, PNone]]\<rparr>"

definition flagged_ids_table :: frame where
  "flagged_ids_table =
     \<lparr>columns = [''id'', ''duplicates''],
      rows = [[PStr ''a'', PInt 0], [PStr ''a'', PInt 1], [PStr ''b'', PInt 1]]\<rparr>"

definition bare_engine :: engine where
  "bare_engine = \<lparr>df = 0, methods = [], flagged = 0,
                   description = \<lparr>dcolumns = [''id'', ''duplicates''],
                                   dcount = [(''id'', 3), (''duplicates'', 3)]\<rparr>,
                   unique_identifiers = [''duplicates'']\<rparr>"

text \<open>Two rows that agree in every column.\<close>

definition shared_id_table :: frame where
  "shared_id_table =
     \<lparr>columns = [''id'', ''x''], rows = [[PStr ''a'', PStr ''p''], [PStr ''a'', PStr ''p'']]\<rparr>"

text \<open>A table with a single column, and a table with a data column named \<open>duplicates\<close>.\<close>

definition single_column_table :: frame where
  "single_column_table = \<lparr>columns = [''id''], rows = [[PStr ''a''], [PStr ''b'']]\<rparr>"

definition own_duplicates_table :: frame where
  "own_duplicates_table =
     \<lparr>columns = [''id'', ''duplicates''], rows = [[PStr ''a'', PInt 1], [PStr ''b'', PInt 1]]\<rparr>"

text \<open>Two rows whose identifier columns hold nothing but \<open>None\<close>.\<close>

definition null_identifiers_table :: frame where
  "null_identifiers_table =
     \<lparr>columns = [''id'', ''x'', ''y''],
      rows = [[PStr ''a'', PNone, PNone], [PStr ''b'', PNone, PNone],
              [PStr ''c'', PStr ''p'', PStr ''r''], [PStr ''d'', PStr ''q'', PStr ''s'']]\<rparr>"

definition quiet_engine :: engine where
  "quiet_engine = \<lparr>df = 0, methods = [], flagged = 1,
                    description = \<lparr>dcolumns = [''id'', ''x''],
                                    dcount = [(''id'', 2), (''x'', 2)]\<rparr>,
                    unique_identifiers = [''x'']\<rparr>"

text \<open>A rendering of floats for the examples: Python's for the integral floats below
  \<open>10^16\<close> in magnitude.\<close>

definition example_float_repr :: "rat \<Rightarrow> string" where
  "example_float_repr x = str_of_int (floor x) @ ''.0''"

text \<open>A column of a text and a bool, and a column of a single \<open>None\<close>.\<close>

definition one_text_table :: frame where
  "one_text_table = \<lparr>columns = [''c''], rows = [[PStr ''abc''], [PBool True]]\<rparr>"

definition one_null_table :: frame where
  "one_null_table = \<lparr>columns = [''c''], rows = [[PNone]]\<rparr>"

text \<open>A cell that the coercion to tag \<open>t\<close> leaves as it is, and that is not missing.\<close>

definition settled :: "(rat \<Rightarrow> string) \<Rightarrow> pyval \<Rightarrow> string \<Rightarrow> string \<Rightarrow> pyval \<Rightarrow> bool" where
  "settled fr fill c t x = (dtype_change fr fill x c t = Inr x \<and> \<not> isnull x)"

text \<open>A table with digits as text, bools, integers and missing cells.\<close>

definition mixed_table :: frame where
  "mixed_table =
     \<lparr>columns = [''n'', ''g'', ''s''],
      rows = [[PStr ''12'', PBool True, PInt 1], [PNone, PNone, PInt 2]]\<rparr>"

lemma example_init:
  "init [] (TableDict example_table) None =
     Inr (\<lparr>df = 0, methods = [''duplicates'', ''null''], flagged = 1,
           description = \<lparr>dcolumns = columns example_table,
                           dcount = [(''hyperlink'', 5), (''type_of_property'', 3), (''postcode'', 3),
                                     (''garden'', 3), (''surface'', 5)]\<rparr>,
           unique_identifiers = [''type_of_property'', ''postcode'', ''garden'', ''surface'']\<rparr>,
          [example_table, example_table])"
  by code_simp

section \<open>Identifier inference\<close>

lemma threshold_init:
  "init [] (TableDict threshold_table) None =
     Inr (\<lparr>df = 0, methods = [''duplicates'', ''null''], flagged = 1,
           description = \<lparr>dcolumns = [''id'', ''x'', ''y'', ''z''],
                           dcount = [(''id'', 4), (''x'', 1), (''y'', 1), (''z'', 2)]\<rparr>,
           unique_identifiers = [''z'']\<rparr>,
          [threshold_table, threshold_table])"
  by code_simp

lemma count_of_describe:
  "describe_with_dtypes fl sdf = Inr d \<Longrightarrow> c \<in> set (columns fl) \<Longrightarrow>
     count_of d c = count_nonnull (getcol (replace_frame fl) c)"
  by (auto simp: describe_with_dtypes_def describe_frame_def append_dtypes_def count_of_def
        replace_frame_def map_of_map_restrict split: if_splits sum.splits option.splits)

lemma dcount_describe:
  "describe_with_dtypes fl sdf = Inr d \<Longrightarrow>
     map snd (dcount d) = map (\<lambda>c. count_nonnull (getcol (replace_frame fl) c)) (columns fl)"
  by (auto simp: describe_with_dtypes_def describe_frame_def append_dtypes_def
        replace_frame_def comp_def split: if_splits sum.splits)

lemma step_uid: "unique_identifiers (fst (step fr c st)) = unique_identifiers (fst st)"
  by (cases c; cases st)
     (auto simp: flag_def describe_def clean_def values_format_def Let_def
           split: sum.splits prod.splits if_splits)

lemma run_uid: "unique_identifiers (fst (run fr cs st)) = unique_identifiers (fst st)"
  unfolding run_def by (induction cs arbitrary: st) (simp_all add: step_uid)

lemma init_df:
  assumes "init s table ms = Inr (eng, s0)"
      and "table_of s table = Some t"
  shows "s0 ! df eng = t \<and> s0 ! flagged eng = t
     \<and> describe_with_dtypes t t = Inr (description eng)
     \<and> unique_identifiers eng =
         filter (\<lambda>column. column \<noteq> hd (columns t) \<and>
                   (of_nat (count_of (description eng) column) :: rat)
                     \<ge> (1 / 2) * of_nat (Max (set (map snd (dcount (description eng))))))
                (columns t)"
  using assms
  by (cases table)
     (auto simp: init_def table_of_def alloc_def Let_def nth_append
           split: sum.splits if_splits prod.splits)

text \<open>
  Claim C6. After a successful construction on a table \<open>t\<close> (a dict, or a DataFrame of
  the store), \<open>self.df\<close> is \<open>t\<close> and \<open>self.unique_identifiers\<close> never contains the
  first column of \<open>t\<close>; it contains exactly the other columns of \<open>t\<close> whose non-null
  count is at least 0.5 times the largest such count over all columns of \<open>t\<close>, where the
  count is the one of the description, taken after the text \<open>"None"\<close> has been replaced
  by \<open>None\<close>; and no sequence of calls of \<open>flag\<close>, \<open>describe\<close>, \<open>clean\<close> and
  \<open>values_format\<close>, from whatever store, changes it.
\<close>

theorem unique_identifier_set:
  assumes "init s table ms = Inr (eng, s0)"
      and "table_of s table = Some t"
  shows "s0 ! df eng = t \<and>
         hd (columns t) \<notin> set (unique_identifiers eng) \<and>
         set (unique_identifiers eng) =
           {c \<in> set (columns t). c \<noteq> hd (columns t) \<and>
              (1 / 2) * of_nat (Max ((\<lambda>c'. count_nonnull (getcol (replace_frame t) c'))
                                      ` set (columns t)))
                \<le> (of_nat (count_nonnull (getcol (replace_frame t) c)) :: rat)} \<and>
         (\<forall>ops calls s'.
            unique_identifiers (fst (run ops calls (eng, s'))) = unique_identifiers eng)"
proof -
  note i = init_df [OF assms]
  from i have d: "describe_with_dtypes t t = Inr (description eng)" by simp
  have mx: "snd ` set (dcount (description eng))
              = (\<lambda>c'. count_nonnull (getcol (replace_frame t) c')) ` set (columns t)"
    using arg_cong [OF dcount_describe [OF d], of set] by simp
  have cnt: "\<And>c. c \<in> set (columns t) \<Longrightarrow>
               count_of (description eng) c = count_nonnull (getcol (replace_frame t) c)"
    by (rule count_of_describe [OF d])
  from i have u: "unique_identifiers eng =
         filter (\<lambda>column. column \<noteq> hd (columns t) \<and>
                   (of_nat (count_of (description eng) column) :: rat)
                     \<ge> (1 / 2) * of_nat (Max (set (map snd (dcount (description eng))))))
                (columns t)" by simp
  from i have z: "s0 ! df eng = t" by simp
  have a: "hd (columns t) \<notin> set (unique_identifiers eng)"
    by (subst u) simp
  have b: "set (unique_identifiers eng) =
           {c \<in> set (columns t). c \<noteq> hd (columns t) \<and>
              (1 / 2) * of_nat (Max ((\<lambda>c'. count_nonnull (getcol (replace_frame t) c'))
                                      ` set (columns t)))
                \<le> (of_nat (count_nonnull (getcol (replace_frame t) c)) :: rat)}"
    by (subst u) (auto simp: mx cnt)
  have c: "\<forall>ops calls s'.
            unique_identifiers (fst (run ops calls (eng, s'))) = unique_identifiers eng"
    by (simp add: run_uid)
  from z a b c show ?thesis by blast
qed

theorem unique_identifier_set_witness:
  "(\<exists>eng s0. init [] (TableDict threshold_table) None = Inr (eng, s0) \<and>
      s0 ! df eng = threshold_table \<and> unique_identifiers eng = [''z'']) \<and>
   table_of [] (TableDict threshold_table) = Some threshold_table \<and>
   hd (columns threshold_table) \<notin> set [''z''] \<and>
   set [''z''] =
     {c \<in> set (columns threshold_table). c \<noteq> hd (columns threshold_table) \<and>
        (1 / 2) * of_nat (Max ((\<lambda>c'. count_nonnull (getcol (replace_frame threshold_table) c'))
                                      ` set (columns threshold_table)))
                \<le> (of_nat (count_nonnull (getcol (replace_frame threshold_table) c)) :: rat)}"
proof -
  have t: "table_of [] (TableDict threshold_table) = Some threshold_table"
    by (simp add: table_of_def)
  have e: "\<exists>eng s0. init [] (TableDict threshold_table) None = Inr (eng, s0) \<and>
      s0 ! df eng = threshold_table \<and> unique_identifiers eng = [''z'']"
    by (intro exI conjI, rule threshold_init) simp_all
  have h: "hd (columns threshold_table) \<notin> set [''z''] \<and>
   set [''z''] =
     {c \<in> set (columns threshold_table). c \<noteq> hd (columns threshold_table) \<and>
        (1 / 2) * of_nat (Max ((\<lambda>c'. count_nonnull (getcol (replace_frame threshold_table) c'))
                                      ` set (columns threshold_table)))
                \<le> (of_nat (count_nonnull (getcol (replace_frame threshold_table) c)) :: rat)}"
    using unique_identifier_set [OF threshold_init t] by simp
  from e t h show ?thesis by (intro conjI) (erule conjunct1 | erule conjunct2 | assumption)+
qed

section \<open>Cleaning\<close>

lemma index_of_less: "c \<in> set cs \<Longrightarrow> index_of c cs < length cs"
  by (induction cs) auto

lemma index_of_notin: "c \<notin> set cs \<Longrightarrow> index_of c cs = length cs"
  by (induction cs) auto

lemma nth_index_of: "c \<in> set cs \<Longrightarrow> cs ! index_of c cs = c"
  by (induction cs) auto

lemma index_of_nth: "distinct cs \<Longrightarrow> i < length cs \<Longrightarrow> index_of (cs ! i) cs = i"
proof (induction cs arbitrary: i)
  case Nil
  then show ?case by simp
next
  case (Cons a cs)
  then show ?case by (cases i) auto
qed

lemma index_of_append: "c \<in> set cs \<Longrightarrow> index_of c (cs @ ds) = index_of c cs"
  by (induction cs) auto

lemma index_of_hd: "cs \<noteq> [] \<Longrightarrow> index_of (hd cs) cs = 0"
  by (cases cs) auto

lemma project_all:
  assumes "distinct cs" "length r = length cs"
  shows "map (\<lambda>c. r ! index_of c cs) cs = r"
proof (rule nth_equalityI)
  show "length (map (\<lambda>c. r ! index_of c cs) cs) = length r" using assms by simp
next
  fix i assume "i < length (map (\<lambda>c. r ! index_of c cs) cs)"
  then have "i < length cs" by simp
  then show "map (\<lambda>c. r ! index_of c cs) cs ! i = r ! i"
    using assms by (simp add: index_of_nth)
qed

lemma loc_columns_all:
  assumes "wf_frame f"
  shows "loc_columns f (columns f) = Inr f"
proof -
  have "map (\<lambda>r. map (\<lambda>c. r ! index_of c (columns f)) (columns f)) (rows f) = rows f"
    using assms by (intro map_idI) (auto simp: wf_frame_def list_all_iff project_all)
  then show ?thesis by (simp add: loc_columns_def list_all_iff)
qed

lemma filter_zip_map: "map fst (filter snd (zip xs (map P xs))) = filter P xs"
  by (induction xs) auto

lemma isin_zip:
  "isin v (map snd (filter (\<lambda>(d, i). Q d) (zip (map g xs) (map h xs))))
     = (\<exists>x \<in> set xs. Q (g x) \<and> isin_match v (h x))"
  by (induction xs) (auto simp: isin_def)

lemma self_or_none_Inr:
  assumes "self_or_none eng arg s = (Inr (fl, d), s1)"
  shows "s1 = (case arg of Df r \<Rightarrow> s @ [s ! r] | _ \<Rightarrow> s)"
    and "fl = (case arg of Df r \<Rightarrow> length s | _ \<Rightarrow> flagged eng)"
    and "s1 ! fl = (case arg of Df r \<Rightarrow> s ! r | _ \<Rightarrow> s ! flagged eng)"
    and "columns (s1 ! fl) \<noteq> []"
    and "dcolumns d = columns (s1 ! fl) @ filter (\<lambda>c. c \<notin> set (columns (s1 ! fl))) (columns (s1 ! df eng))"
  using assms
  by (auto simp: self_or_none_def alloc_def describe_with_dtypes_def describe_frame_def
        append_dtypes_def replace_frame_def Let_def
        split: df_arg.splits sum.splits if_splits)

lemma self_or_none_Inl:
  assumes "self_or_none eng arg s = (Inl e, s1)"
  shows "s1 = (case arg of Df r \<Rightarrow> s @ [s ! r] | _ \<Rightarrow> s)"
  using assms
  by (auto simp: self_or_none_def alloc_def Let_def split: df_arg.splits sum.splits)

lemma loc_columns_Inl:
  "\<not> list_all (\<lambda>c. c \<in> set (columns f)) cs \<Longrightarrow> loc_columns f cs = Inl LocKeyError"
  by (simp add: loc_columns_def)

lemma loc_columns_extra:
  assumes "loc_columns f (columns f @ filter (\<lambda>c. c \<notin> set (columns f)) cs) = Inr g" "wf_frame f"
  shows "g = f"
proof -
  define ex where "ex = filter (\<lambda>c. c \<notin> set (columns f)) cs"
  have l: "loc_columns f (columns f @ ex) = Inr g" using assms(1) by (simp only: ex_def)
  have "list_all (\<lambda>c. c \<in> set (columns f)) (columns f @ ex)"
  proof (rule ccontr)
    assume "\<not> list_all (\<lambda>c. c \<in> set (columns f)) (columns f @ ex)"
    from loc_columns_Inl [OF this] l show False by simp
  qed
  then have a: "\<And>c. c \<in> set ex \<Longrightarrow> c \<in> set (columns f)"
    by (simp add: list_all_iff)
  have b: "\<And>c. c \<in> set ex \<Longrightarrow> c \<notin> set (columns f)" by (simp add: ex_def)
  have "ex = []"
  proof (cases ex)
    case Nil
    then show ?thesis .
  next
    case (Cons c cs')
    then have "c \<in> set ex" by simp
    from a [OF this] b [OF this] show ?thesis by simp
  qed
  with l have "loc_columns f (columns f) = Inr g" by simp
  with loc_columns_all [OF assms(2)] show ?thesis by simp
qed

lemma getcol_hd: "columns f \<noteq> [] \<Longrightarrow> getcol f (hd (columns f)) = map (\<lambda>r. r ! 0) (rows f)"
  by (simp add: getcol_def index_of_hd)

lemma select_rows_filter:
  "select_rows f (map P (rows f)) = f\<lparr>rows := filter P (rows f)\<rparr>"
  by (simp add: select_rows_def filter_zip_map)

lemma clean_filter:
  "select_rows F
     (map (\<lambda>v. isin v (map snd (filter (\<lambda>(d, i). py_eq d (PInt 0))
                                     (zip (getcol F dc) (map h (rows F))))))
          (map h (rows F)))
   = F\<lparr>rows := filter (\<lambda>r. \<exists>r' \<in> set (rows F).
                        py_eq (r' ! index_of dc (columns F)) (PInt 0) \<and>
                        isin_match (h r) (h r')) (rows F)\<rparr>"
proof -
  let ?uid = "map snd (filter (\<lambda>(d, i). py_eq d (PInt 0)) (zip (getcol F dc) (map h (rows F))))"
  have m: "map (\<lambda>v. isin v ?uid) (map h (rows F)) = map (\<lambda>r. isin (h r) ?uid) (rows F)"
    by (simp add: comp_def)
  have i: "\<And>v. isin v ?uid
             = (\<exists>r' \<in> set (rows F). py_eq (r' ! index_of dc (columns F)) (PInt 0) \<and> isin_match v (h r'))"
    unfolding getcol_def by (rule isin_zip)
  show ?thesis
    unfolding m select_rows_filter by (simp only: i)
qed

lemma clean_result:
  assumes c: "clean eng arg s = (Inr cr, eng', s')"
      and F: "F = (case arg of Df r \<Rightarrow> s ! r | _ \<Rightarrow> s ! flagged eng)"
      and wf: "wf_frame F"
  shows "s' ! cr =
           (if ''duplicates'' \<in> set (columns F)
            then F\<lparr>rows := filter (\<lambda>r. \<exists>r' \<in> set (rows F).
                               py_eq (r' ! index_of ''duplicates'' (columns F)) (PInt 0) \<and>
                               isin_match (r ! 0) (r' ! 0)) (rows F)\<rparr>
            else F)"
proof -
  from c obtain fl d s1 where so: "self_or_none eng arg s = (Inr (fl, d), s1)"
    by (cases "self_or_none eng arg s" rule: prod.exhaust, 
        cases "fst (self_or_none eng arg s)" rule: sum.exhaust)
       (auto simp: clean_def)
  note f = self_or_none_Inr [OF so]
  from f(3) F have fl: "s1 ! fl = F" by simp
  from c so obtain c0 where lc: "loc_columns F (dcolumns d) = Inr c0"
    by (cases "loc_columns F (dcolumns d)") (auto simp: clean_def fl)
  have c0: "c0 = F"
    using lc wf f(5) unfolding fl by (rule_tac loc_columns_extra) auto
  from f(4) fl have ne: "columns F \<noteq> []" by simp
  define cleaned where "cleaned =
     (if ''duplicates'' \<in> set (columns F)
      then select_rows F
             (map (\<lambda>v. isin v (map snd (filter (\<lambda>(d, i). py_eq d (PInt 0))
                                             (zip (getcol F ''duplicates'')
                                                  (getcol F (hd (columns F)))))))
                  (getcol F (hd (columns F))))
      else F)"
  have "clean eng arg s = (Inr (length s1), (if arg = NoDf then eng\<lparr>description := d\<rparr> else eng), s1 @ [cleaned])"
    by (simp add: clean_def so lc fl c0 alloc_def Let_def cleaned_def)
  with c have "s' ! cr = cleaned" by auto
  moreover have "cleaned = (if ''duplicates'' \<in> set (columns F)
            then F\<lparr>rows := filter (\<lambda>r. \<exists>r' \<in> set (rows F).
                               py_eq (r' ! index_of ''duplicates'' (columns F)) (PInt 0) \<and>
                               isin_match (r ! 0) (r' ! 0)) (rows F)\<rparr>
            else F)"
    unfolding cleaned_def getcol_hd [OF ne] by (simp only: clean_filter)
  ultimately show ?thesis by simp
qed

lemma self_or_none_returns:
  assumes "columns (case arg of Df r \<Rightarrow> s ! r | _ \<Rightarrow> s ! flagged eng) \<noteq> []"
  shows "\<exists>fl d s1. self_or_none eng arg s = (Inr (fl, d), s1)"
  using assms
  by (cases arg)
     (simp_all add: self_or_none_def alloc_def describe_with_dtypes_def describe_frame_def
        replace_frame_def Let_def)

lemma clean_returns:
  assumes F: "F = (case arg of Df r \<Rightarrow> s ! r | _ \<Rightarrow> s ! flagged eng)"
      and wf: "wf_frame F" and ne: "columns F \<noteq> []"
      and d: "df eng < length s"
      and sub: "set (columns (s ! df eng)) \<subseteq> set (columns F)"
  shows "\<exists>cr eng' s'. clean eng arg s = (Inr cr, eng', s')"
proof -
  from ne F have "columns (case arg of Df r \<Rightarrow> s ! r | _ \<Rightarrow> s ! flagged eng) \<noteq> []"
    by simp
  from self_or_none_returns [OF this]
  obtain fl dd s1 where so: "self_or_none eng arg s = (Inr (fl, dd), s1)" by blast
  note f = self_or_none_Inr [OF so]
  from f(3) F have fl: "s1 ! fl = F" by simp
  from f(1) d have "s1 ! df eng = s ! df eng"
    by (cases arg) (simp_all add: nth_append)
  with sub have "filter (\<lambda>c. c \<notin> set (columns F)) (columns (s1 ! df eng)) = []"
    by (auto simp: filter_empty_conv)
  with f(5) fl have "dcolumns dd = columns F" by simp
  with loc_columns_all [OF wf] have lc: "loc_columns F (dcolumns dd) = Inr F" by simp
  show ?thesis
    by (simp add: clean_def so fl lc alloc_def Let_def)
qed

text \<open>
  Claim C1. Let \<open>F\<close> be the flagged frame that \<open>clean\<close> works on (the engine's own
  flagged table, or the copy of the DataFrame passed in), with a column \<open>duplicates\<close>.
  Then \<open>clean\<close> returns whenever every column of \<open>self.df\<close> is a column of \<open>F\<close>, and
  what it returns is \<open>F\<close> with exactly those rows kept whose first cell is found (as
  \<open>isin\<close> finds it) among the first cells of the rows whose \<open>duplicates\<close> cell equals
  0; all other rows are removed, and no column is.
\<close>

theorem clean_retains:
  assumes F: "F = (case arg of Df r \<Rightarrow> s ! r | _ \<Rightarrow> s ! flagged eng)"
      and wf: "wf_frame F"
      and dup: "''duplicates'' \<in> set (columns F)"
      and d: "df eng < length s"
  shows "(set (columns (s ! df eng)) \<subseteq> set (columns F) \<longrightarrow>
            (\<exists>cr eng' s'. clean eng arg s = (Inr cr, eng', s'))) \<and>
         (\<forall>cr eng' s'. clean eng arg s = (Inr cr, eng', s') \<longrightarrow>
            s' ! cr = F\<lparr>rows := filter (\<lambda>r. \<exists>r' \<in> set (rows F).
                               py_eq (r' ! index_of ''duplicates'' (columns F)) (PInt 0) \<and>
                               isin_match (r ! 0) (r' ! 0)) (rows F)\<rparr>)"
proof (intro conjI impI allI)
  assume "set (columns (s ! df eng)) \<subseteq> set (columns F)"
  moreover from dup have "columns F \<noteq> []" by auto
  ultimately show "\<exists>cr eng' s'. clean eng arg s = (Inr cr, eng', s')"
    using clean_returns [OF F wf _ d] by blast
next
  fix cr eng' s'
  assume "clean eng arg s = (Inr cr, eng', s')"
  from clean_result [OF this F wf] dup
  show "s' ! cr = F\<lparr>rows := filter (\<lambda>r. \<exists>r' \<in> set (rows F).
                               py_eq (r' ! index_of ''duplicates'' (columns F)) (PInt 0) \<and>
                               isin_match (r ! 0) (r' ! 0)) (rows F)\<rparr>"
    by simp
qed

lemma flagged_ids_clean:
  "clean bare_engine (Df 0) [flagged_ids_table] =
     (Inr 2, bare_engine,
      [flagged_ids_table, flagged_ids_table,
       \<lparr>columns = [''id'', ''duplicates''],
        rows = [[PStr ''a'', PInt 0], [PStr ''a'', PInt 1]]\<rparr>])"
  by code_simp

theorem clean_retains_witness:
  "wf_frame flagged_ids_table \<and> ''duplicates'' \<in> set (columns flagged_ids_table) \<and>
   df bare_engine < length [flagged_ids_table] \<and>
   (\<exists>cr eng' s'. clean bare_engine (Df 0) [flagged_ids_table] = (Inr cr, eng', s')) \<and>
   filter (\<lambda>r. \<exists>r' \<in> set (rows flagged_ids_table).
                 py_eq (r' ! index_of ''duplicates'' (columns flagged_ids_table)) (PInt 0) \<and>
                 isin_match (r ! 0) (r' ! 0)) (rows flagged_ids_table)
     = [[PStr ''a'', PInt 0], [PStr ''a'', PInt 1]]"
proof -
  have F: "flagged_ids_table = (case Df 0 of Df r \<Rightarrow> [flagged_ids_table] ! r | _ \<Rightarrow> [flagged_ids_table] ! flagged bare_engine)"
    by simp
  have wf: "wf_frame flagged_ids_table" by (simp add: wf_frame_def flagged_ids_table_def)
  have dup: "''duplicates'' \<in> set (columns flagged_ids_table)" by (simp add: flagged_ids_table_def)
  have d: "df bare_engine < length [flagged_ids_table]" by (simp add: bare_engine_def)
  define kept where "kept = filter (\<lambda>r. \<exists>r' \<in> set (rows flagged_ids_table).
                 py_eq (r' ! index_of ''duplicates'' (columns flagged_ids_table)) (PInt 0) \<and>
                 isin_match (r ! 0) (r' ! 0)) (rows flagged_ids_table)"
  note th = clean_retains [OF F wf dup d, folded kept_def]
  from th flagged_ids_clean
  have "[flagged_ids_table, flagged_ids_table,
       \<lparr>columns = [''id'', ''duplicates''],
        rows = [[PStr ''a'', PInt 0], [PStr ''a'', PInt 1]]\<rparr>] ! 2 =
       flagged_ids_table\<lparr>rows := kept\<rparr>"
    by blast
  then have "\<lparr>columns = [''id'', ''duplicates''],
        rows = [[PStr ''a'', PInt 0], [PStr ''a'', PInt 1]]\<rparr> = flagged_ids_table\<lparr>rows := kept\<rparr>"
    by simp
  from arg_cong [OF this, of rows] have "kept = [[PStr ''a'', PInt 0], [PStr ''a'', PInt 1]]"
    by simp
  then have r: "filter (\<lambda>r. \<exists>r' \<in> set (rows flagged_ids_table).
                 py_eq (r' ! index_of ''duplicates'' (columns flagged_ids_table)) (PInt 0) \<and>
                 isin_match (r ! 0) (r' ! 0)) (rows flagged_ids_table)
     = [[PStr ''a'', PInt 0], [PStr ''a'', PInt 1]]"
    by (simp only: kept_def)
  have e: "\<exists>cr eng' s'. clean bare_engine (Df 0) [flagged_ids_table] = (Inr cr, eng', s')"
    using flagged_ids_clean by blast
  from wf dup d e r show ?thesis by (intro conjI)
qed

section \<open>What clean removes and keeps\<close>





text \<open>
  Claim C3 fails on the code: the description that \<open>clean\<close> takes its columns from is
  computed from the flagged frame, flag columns included, so the selection "use only
  non-flagging part of the flagged df" selects every column. On the notebook's example,
  \<open>flag()\<close> followed by \<open>clean()\<close> returns a table that still has the columns
  \<open>duplicates\<close> and \<open>null\<close>.
\<close>

theorem clean_keeps_flag_columns:
  "(case init [] (TableDict example_table) None of
      Inl e \<Rightarrow> False
    | Inr (eng, s) \<Rightarrow>
        (case flag eng NoDf s of
           (Inl e, eng1, s1) \<Rightarrow> False
         | (Inr fl, eng1, s1) \<Rightarrow>
             (case clean eng1 NoDf s1 of
                (Inl e, eng2, s2) \<Rightarrow> False
              | (Inr cr, eng2, s2) \<Rightarrow>
                  columns (s2 ! cr) =
                    [''hyperlink'', ''type_of_property'', ''postcode'', ''garden'', ''surface'',
                     ''duplicates'', ''null''])))"
  by code_simp

section \<open>Calls on a table of the caller\<close>

lemma self_or_none_Df:
  "\<exists>res. self_or_none eng (Df r) s = (res, s @ [s ! r])"
  by (simp add: self_or_none_def alloc_def Let_def split: sum.splits)

lemma self_or_none_Df_ref:
  "self_or_none eng (Df r) s = (Inr (fl, d), s1) \<Longrightarrow> fl = length s"
  by (auto simp: self_or_none_def alloc_def Let_def split: sum.splits)

lemma flag_Df:
  "\<exists>res X. flag eng (Df r) s = (res, eng, s @ [X]) \<and> (case res of Inr fl \<Rightarrow> fl = length s | Inl e \<Rightarrow> True)"
proof -
  obtain res where so: "self_or_none eng (Df r) s = (res, s @ [s ! r])"
    using self_or_none_Df by blast
  show ?thesis
  proof (cases res)
    case (Inl e)
    with so show ?thesis by (simp add: flag_def)
  next
    case (Inr p)
    obtain fl d where p: "p = (fl, d)" by (cases p)
    with so Inr have so': "self_or_none eng (Df r) s = (Inr (fl, d), s @ [s ! r])" by simp
    from self_or_none_Df_ref [OF so'] have fl: "fl = length s" .
    show ?thesis
      by (auto simp: flag_def so' fl Let_def split: sum.splits)
  qed
qed

lemma describe_Df:
  "\<exists>res. describe eng (Df r) s = (res, eng, s @ [s ! r])"
proof -
  obtain res where so: "self_or_none eng (Df r) s = (res, s @ [s ! r])"
    using self_or_none_Df by blast
  then show ?thesis
    by (cases res) (auto simp: describe_def)
qed

lemma clean_Df:
  "\<exists>res ys. clean eng (Df r) s = (res, eng, s @ ys)"
proof -
  obtain res where so: "self_or_none eng (Df r) s = (res, s @ [s ! r])"
    using self_or_none_Df by blast
  show ?thesis
  proof (cases res)
    case (Inl e)
    with so show ?thesis by (simp add: clean_def)
  next
    case (Inr p)
    obtain fl d where p: "p = (fl, d)" by (cases p)
    with so Inr have so': "self_or_none eng (Df r) s = (Inr (fl, d), s @ [s ! r])" by simp
    show ?thesis
      by (cases "loc_columns ((s @ [s ! r]) ! fl) (dcolumns d)")
         (simp_all add: clean_def so' alloc_def Let_def)
  qed
qed

text \<open>
  Claim C7. When \<open>flag\<close>, \<open>describe\<close> or \<open>clean\<close> is called with a DataFrame of the
  caller, every object that existed before the call is the same after it, the
  caller's table and the engine's own flagged table among them, and the engine (its
  flagged reference and its description) is unchanged; the table \<open>flag\<close> returns is a
  new object, the private copy.
\<close>

theorem external_table_untouched:
  assumes "r < length s" and "flagged eng < length s"
  shows "(\<forall>call \<in> {flag eng (Df r) s, clean eng (Df r) s}.
            fst (snd call) = eng \<and> take (length s) (snd (snd call)) = s \<and>
            snd (snd call) ! r = s ! r \<and> snd (snd call) ! flagged eng = s ! flagged eng) \<and>
         fst (snd (describe eng (Df r) s)) = eng \<and>
         take (length s) (snd (snd (describe eng (Df r) s))) = s \<and>
         snd (snd (describe eng (Df r) s)) ! r = s ! r \<and>
         snd (snd (describe eng (Df r) s)) ! flagged eng = s ! flagged eng \<and>
         (case fst (flag eng (Df r) s) of Inr fl \<Rightarrow> fl = length s | Inl e \<Rightarrow> True)"
proof -
  obtain res1 X where f: "flag eng (Df r) s = (res1, eng, s @ [X])"
      and f': "case res1 of Inr fl \<Rightarrow> fl = length s | Inl e \<Rightarrow> True"
    using flag_Df by blast
  obtain res2 where d: "describe eng (Df r) s = (res2, eng, s @ [s ! r])"
    using describe_Df by blast
  obtain res3 ys where c: "clean eng (Df r) s = (res3, eng, s @ ys)"
    using clean_Df by blast
  from assms show ?thesis
    by (simp add: f f' d c nth_append)
qed

theorem external_table_untouched_witness:
  "(0::nat) < length [flagged_ids_table] \<and> flagged bare_engine < length [flagged_ids_table] \<and>
   fst (snd (flag bare_engine (Df 0) [flagged_ids_table])) = bare_engine \<and>
   snd (snd (flag bare_engine (Df 0) [flagged_ids_table])) ! 0 = flagged_ids_table \<and>
   fst (snd (clean bare_engine (Df 0) [flagged_ids_table])) = bare_engine \<and>
   snd (snd (clean bare_engine (Df 0) [flagged_ids_table])) ! 0 = flagged_ids_table \<and>
   snd (snd (describe bare_engine (Df 0) [flagged_ids_table])) ! 0 = flagged_ids_table"
proof -
  have a: "(0::nat) < length [flagged_ids_table]" by simp
  have b: "flagged bare_engine < length [flagged_ids_table]" by (simp add: bare_engine_def)
  note th = external_table_untouched [OF a b]
  from th have "fst (snd (flag bare_engine (Df 0) [flagged_ids_table])) = bare_engine"
    and "snd (snd (flag bare_engine (Df 0) [flagged_ids_table])) ! 0 = [flagged_ids_table] ! 0"
    and "fst (snd (clean bare_engine (Df 0) [flagged_ids_table])) = bare_engine"
    and "snd (snd (clean bare_engine (Df 0) [flagged_ids_table])) ! 0 = [flagged_ids_table] ! 0"
    and "snd (snd (describe bare_engine (Df 0) [flagged_ids_table])) ! 0 = [flagged_ids_table] ! 0"
    by blast+
  with a b show ?thesis by simp
qed

text \<open>
  Claim C8 fails on the code: with an empty \<open>unique_identifiers\<close> list,
  \<open>flagged.duplicated(subset=[])\<close> selects no column and raises \<open>ValueError\<close> on a table
  that has rows, so \<open>flag\<close> returns no flagged table at all. A table with a single
  column is such a case.
\<close>

theorem flag_fails_without_identifiers:
  "(case init [] (TableDict single_column_table) None of
      Inl e \<Rightarrow> False
    | Inr (eng, s) \<Rightarrow>
        unique_identifiers eng = [] \<and> fst (flag eng NoDf s) = Inl DuplicatedValueError)"
  by code_simp

section \<open>Writing and reading columns\<close>

lemma wf_rowD: "wf_frame f \<Longrightarrow> r \<in> set (rows f) \<Longrightarrow> length r = length (columns f)"
  by (simp add: wf_frame_def list_all_iff)

lemma index_of_snoc: "c \<notin> set cs \<Longrightarrow> index_of c (cs @ [c]) = length cs"
  by (induction cs) auto

lemma setcol_rows_length:
  "length vs = length (rows f) \<Longrightarrow> length (rows (setcol f c vs)) = length (rows f)"
  by (simp add: setcol_def)

lemma setcol_columns:
  "columns (setcol f c vs) = (if c \<in> set (columns f) then columns f else columns f @ [c])"
  by (simp add: setcol_def)

lemma setcol_row_nth:
  assumes "length vs = length (rows f)" "i < length (rows f)"
  shows "rows (setcol f c vs) ! i =
           (if c \<in> set (columns f) then (rows f ! i)[index_of c (columns f) := vs ! i]
            else rows f ! i @ [vs ! i])"
  using assms by (simp add: setcol_def)

lemma wf_setcol:
  assumes wf: "wf_frame f" and len: "length vs = length (rows f)"
  shows "wf_frame (setcol f c vs)"
proof -
  have d: "distinct (columns (setcol f c vs))"
    using wf by (simp add: setcol_columns wf_frame_def)
  have "\<And>r. r \<in> set (rows (setcol f c vs)) \<Longrightarrow> length r = length (columns (setcol f c vs))"
  proof -
    fix r assume "r \<in> set (rows (setcol f c vs))"
    then obtain i where i: "i < length (rows (setcol f c vs))" and r: "r = rows (setcol f c vs) ! i"
      by (auto simp: in_set_conv_nth)
    from i len have i': "i < length (rows f)" by (simp add: setcol_rows_length)
    then have "rows f ! i \<in> set (rows f)" by simp
    from wf_rowD [OF wf this] have l: "length (rows f ! i) = length (columns f)" .
    show "length r = length (columns (setcol f c vs))"
      unfolding r setcol_row_nth [OF len i'] setcol_columns using l by simp
  qed
  with d show ?thesis by (simp add: wf_frame_def list_all_iff)
qed

lemma getcol_nth:
  "i < length (rows f) \<Longrightarrow> getcol f c ! i = (rows f ! i) ! index_of c (columns f)"
  by (simp add: getcol_def)

lemma length_getcol: "length (getcol f c) = length (rows f)"
  by (simp add: getcol_def)

lemma getcol_setcol_same:
  assumes wf: "wf_frame f" and len: "length vs = length (rows f)"
  shows "getcol (setcol f c vs) c = vs"
proof (rule nth_equalityI)
  show "length (getcol (setcol f c vs) c) = length vs"
    using len by (simp add: length_getcol setcol_rows_length)
next
  fix i assume "i < length (getcol (setcol f c vs) c)"
  then have i: "i < length (rows f)" using len by (simp add: length_getcol setcol_rows_length)
  then have "rows f ! i \<in> set (rows f)" by simp
  from wf_rowD [OF wf this] have l: "length (rows f ! i) = length (columns f)" .
  have i2: "i < length (rows (setcol f c vs))" using i len by (simp add: setcol_rows_length)
  show "getcol (setcol f c vs) c ! i = vs ! i"
  proof (cases "c \<in> set (columns f)")
    case True
    then have "index_of c (columns f) < length (rows f ! i)" using l by (simp add: index_of_less)
    then show ?thesis
      unfolding getcol_nth [OF i2] setcol_row_nth [OF len i] setcol_columns using True by simp
  next
    case False
    then show ?thesis
      unfolding getcol_nth [OF i2] setcol_row_nth [OF len i] setcol_columns
      using l by (simp add: index_of_snoc nth_append)
  qed
qed

lemma getcol_setcol_other:
  assumes wf: "wf_frame f" and len: "length vs = length (rows f)"
      and ne: "c' \<noteq> c" and c': "c' \<in> set (columns f)"
  shows "getcol (setcol f c vs) c' = getcol f c'"
proof (rule nth_equalityI)
  show "length (getcol (setcol f c vs) c') = length (getcol f c')"
    using len by (simp add: length_getcol setcol_rows_length)
next
  fix i assume "i < length (getcol (setcol f c vs) c')"
  then have i: "i < length (rows f)" using len by (simp add: length_getcol setcol_rows_length)
  then have "rows f ! i \<in> set (rows f)" by simp
  from wf_rowD [OF wf this] have l: "length (rows f ! i) = length (columns f)" .
  have i2: "i < length (rows (setcol f c vs))" using i len by (simp add: setcol_rows_length)
  have lt: "index_of c' (columns f) < length (rows f ! i)" using l c' by (simp add: index_of_less)
  show "getcol (setcol f c vs) c' ! i = getcol f c' ! i"
  proof (cases "c \<in> set (columns f)")
    case True
    have "index_of c (columns f) \<noteq> index_of c' (columns f)"
      using ne True c' nth_index_of by metis
    then show ?thesis
      unfolding getcol_nth [OF i2] getcol_nth [OF i] setcol_row_nth [OF len i] setcol_columns
      using True by simp
  next
    case False
    then show ?thesis
      unfolding getcol_nth [OF i2] getcol_nth [OF i] setcol_row_nth [OF len i] setcol_columns
      using lt c' by (simp add: index_of_append nth_append)
  qed
qed

section \<open>Marking duplicates\<close>

lemma length_mark_seen: "length (mark_seen same seen ks) = length ks"
  by (induction ks arbitrary: seen) auto

lemma mark_seen_nth:
  "j < length ks \<Longrightarrow>
     mark_seen same seen ks ! j = (\<exists>e \<in> set seen \<union> set (take j ks). same e (ks ! j))"
proof (induction ks arbitrary: seen j)
  case Nil
  then show ?case by simp
next
  case (Cons k ks)
  show ?case
  proof (cases j)
    case 0
    then show ?thesis by (simp add: list_ex_iff)
  next
    case (Suc n)
    with Cons.prems have "n < length ks" by simp
    from Cons.IH [OF this, of "k # seen"] Suc show ?thesis by auto
  qed
qed

lemma mark_seen_earlier:
  assumes "i < j" "j < length ks" "same (ks ! i) (ks ! j)"
  shows "mark_seen same seen ks ! j"
proof -
  from assms have "ks ! i \<in> set (take j ks)"
    by (metis in_set_conv_nth length_take min.absorb2 nth_take less_imp_le_nat order.strict_trans)
  with assms show ?thesis by (auto simp: mark_seen_nth)
qed

section \<open>Missing identifiers\<close>

lemma flag_Inr:
  assumes f: "flag eng arg s = (Inr fl, eng1, s1)"
      and v: "case arg of Df r \<Rightarrow> True | _ \<Rightarrow> flagged eng < length s"
  obtains d s0 G where "self_or_none eng arg s = (Inr (fl, d), s0)"
      and "''duplicates'' \<in> set (methods eng) \<Longrightarrow>
             \<exists>mk. duplicated (s0 ! fl) (unique_identifiers eng) = Inr mk \<and>
                  G = setcol (s0 ! fl) ''duplicates'' (map flag01 mk)"
      and "''duplicates'' \<notin> set (methods eng) \<Longrightarrow> G = s0 ! fl"
      and "s1 ! fl = (if ''null'' \<in> set (methods eng) then setcol G ''null'' (null_counts G) else G)"
proof -
  obtain res s0 where so: "self_or_none eng arg s = (res, s0)" by (cases "self_or_none eng arg s")
  from f so obtain fl' d where res: "res = Inr (fl', d)"
    by (cases res) (auto simp: flag_def)
  note so' = so [unfolded res]
  note sn = self_or_none_Inr [OF so']
  from sn(1,2) v have lt: "fl' < length s0" by (cases arg) simp_all
  show thesis
  proof (cases "''duplicates'' \<in> set (methods eng)")
    case True
    from f so' True obtain mk where mk: "duplicated (s0 ! fl') (unique_identifiers eng) = Inr mk"
      by (cases "duplicated (s0 ! fl') (unique_identifiers eng)") (auto simp: flag_def)
    define G where "G = setcol (s0 ! fl') ''duplicates'' (map flag01 mk)"
    from f so' True mk lt have "fl = fl'"
      and "s1 ! fl' = (if ''null'' \<in> set (methods eng) then setcol G ''null'' (null_counts G) else G)"
      by (auto simp: flag_def Let_def G_def)
    with so' True mk G_def that [of d s0 G] show thesis by auto
  next
    case False
    define G where "G = s0 ! fl'"
    from f so' False lt have "fl = fl'"
      and "s1 ! fl' = (if ''null'' \<in> set (methods eng) then setcol G ''null'' (null_counts G) else G)"
      by (auto simp: flag_def Let_def G_def)
    with so' False G_def that [of d s0 G] show thesis by auto
  qed
qed

lemma same_key_null: "isnull a \<Longrightarrow> same_key a a"
  by (auto simp: isnull_def same_key_def)

lemma same_code_null: "isnull a \<Longrightarrow> same_code a a"
  by (simp add: same_code_def)

lemma list_all2_map_same:
  "list_all2 P (map f xs) (map g xs) = (\<forall>x \<in> set xs. P (f x) (g x))"
  by (induction xs) auto

lemma duplicated_nulls:
  assumes d: "duplicated F subs = Inr mk"
      and wf: "wf_frame F" and cne: "columns F \<noteq> []"
      and ij: "i < j" "j < length (rows F)"
      and nulls: "\<forall>c \<in> set subs. isnull (getcol F c ! i) \<and> getcol F c ! j = getcol F c ! i"
  shows "length mk = length (rows F) \<and> mk ! j"
proof -
  from ij have ne: "rows F \<noteq> []" by auto
  from ij have i: "i < length (rows F)" by simp
  from d ne cne have sub: "list_all (\<lambda>c. c \<in> set (columns F)) subs"
    by (auto simp: duplicated_def split: if_splits)
  from wf have dist: "distinct (columns F)" by (simp add: wf_frame_def)
  show ?thesis
  proof (cases "length subs = 1")
    case True
    then have h: "hd subs \<in> set subs" by (cases subs) auto
    from d ne cne sub True dist have mk: "mk = mark_seen same_key [] (getcol F (hd subs))"
      by (simp add: duplicated_def)
    from nulls h have "same_key (getcol F (hd subs) ! i) (getcol F (hd subs) ! j)"
      by (simp add: same_key_null)
    from mark_seen_earlier [of i j "getcol F (hd subs)" same_key, OF ij(1) _ this] ij(2)
    show ?thesis by (simp add: mk length_mark_seen length_getcol)
  next
    case False
    with d ne cne sub have mk: "mk = mark_seen (list_all2 same_code) [] (subset_keys F subs)"
      by (simp add: duplicated_def split: if_splits)
    have len: "length (subset_keys F subs) = length (rows F)" by (simp add: subset_keys_def)
    have "list_all2 same_code (subset_keys F subs ! i) (subset_keys F subs ! j)"
      using nulls i ij(2)
      by (auto simp: subset_keys_def list_all2_map_same getcol_nth same_code_null)
    from mark_seen_earlier [of i j "subset_keys F subs" "list_all2 same_code", OF ij(1) _ this] ij(2) len
    show ?thesis by (simp add: mk length_mark_seen)
  qed
qed

text \<open>
  Claim C4, as stated, fails: \<open>DataFrame.duplicated\<close> lets a missing value match a
  missing value. In a table whose first two rows hold \<open>None\<close> in both identifier
  columns, \<open>flag\<close> gives the second row \<open>duplicates\<close> = 1.
\<close>

theorem null_rows_flagged:
  "(case init [] (TableDict null_identifiers_table) None of
      Inl e \<Rightarrow> False
    | Inr (eng, s) \<Rightarrow>
        unique_identifiers eng = [''x'', ''y''] \<and>
        (case flag eng NoDf s of
           (Inl e, eng1, s1) \<Rightarrow> False
         | (Inr fl, eng1, s1) \<Rightarrow>
             getcol (s1 ! fl) ''duplicates'' = [PInt 0, PInt 1, PInt 0, PInt 0]))"
  by code_simp

text \<open>
  Claim C4, amended. Two rows whose cells in all columns of the Unique Identifier Set
  are missing, with the same missing value (\<open>None\<close> in both, or \<open>nan\<close> in both) in each
  of these columns, are flagged as duplicates of each other: whenever \<open>flag\<close> with the
  method \<open>duplicates\<close> returns, the later of the two rows has \<open>duplicates\<close> = 1.
\<close>

theorem null_identifiers_match:
  assumes f: "flag eng arg s = (Inr fl, eng1, s1)"
      and m: "''duplicates'' \<in> set (methods eng)"
      and F: "F = (case arg of Df r \<Rightarrow> s ! r | _ \<Rightarrow> s ! flagged eng)"
      and v: "case arg of Df r \<Rightarrow> True | _ \<Rightarrow> flagged eng < length s"
      and wf: "wf_frame F"
      and ij: "i < j" "j < length (rows F)"
      and nulls: "\<forall>c \<in> set (unique_identifiers eng).
                    isnull (getcol F c ! i) \<and> getcol F c ! j = getcol F c ! i"
  shows "getcol (s1 ! fl) ''duplicates'' ! j = PInt 1"
proof (rule flag_Inr [OF f v])
  fix d s0 G
  assume so: "self_or_none eng arg s = (Inr (fl, d), s0)"
    and g: "''duplicates'' \<in> set (methods eng) \<Longrightarrow>
             \<exists>mk. duplicated (s0 ! fl) (unique_identifiers eng) = Inr mk \<and>
                  G = setcol (s0 ! fl) ''duplicates'' (map flag01 mk)"
    and s1: "s1 ! fl = (if ''null'' \<in> set (methods eng) then setcol G ''null'' (null_counts G) else G)"
  note sn = self_or_none_Inr [OF so]
  from sn(3) F have fl: "s0 ! fl = F" by simp
  from sn(4) fl have cne: "columns F \<noteq> []" by simp
  from g [OF m] fl obtain mk where mk: "duplicated F (unique_identifiers eng) = Inr mk"
      and G: "G = setcol F ''duplicates'' (map flag01 mk)" by auto
  from duplicated_nulls [OF mk wf cne ij nulls] have len: "length mk = length (rows F)" and j: "mk ! j"
    by simp_all
  have len': "length (map flag01 mk) = length (rows F)" using len by simp
  have gd: "getcol G ''duplicates'' = map flag01 mk"
    unfolding G by (rule getcol_setcol_same [OF wf len'])
  have wfG: "wf_frame G" unfolding G by (rule wf_setcol [OF wf len'])
  have dG: "''duplicates'' \<in> set (columns G)" unfolding G by (simp add: setcol_columns)
  have "getcol (s1 ! fl) ''duplicates'' = map flag01 mk"
  proof (cases "''null'' \<in> set (methods eng)")
    case True
    have ln: "length (null_counts G) = length (rows G)" by (simp add: null_counts_def)
    have "getcol (setcol G ''null'' (null_counts G)) ''duplicates'' = getcol G ''duplicates''"
      by (rule getcol_setcol_other [OF wfG ln _ dG]) simp
    with True s1 gd show ?thesis by simp
  next
    case False
    with s1 gd show ?thesis by simp
  qed
  with j ij(2) len show ?thesis by (simp add: flag01_def)
qed

lemma null_identifiers_init:
  "init [] (TableDict null_identifiers_table) None =
     Inr (\<lparr>df = 0, methods = [''duplicates'', ''null''], flagged = 1,
           description = \<lparr>dcolumns = [''id'', ''x'', ''y''],
                           dcount = [(''id'', 4), (''x'', 2), (''y'', 2)]\<rparr>,
           unique_identifiers = [''x'', ''y'']\<rparr>,
          [null_identifiers_table, null_identifiers_table])"
  by code_simp

lemma null_identifiers_flag:
  "flag \<lparr>df = 0, methods = [''duplicates'', ''null''], flagged = 1,
           description = \<lparr>dcolumns = [''id'', ''x'', ''y''],
                           dcount = [(''id'', 4), (''x'', 2), (''y'', 2)]\<rparr>,
           unique_identifiers = [''x'', ''y'']\<rparr> NoDf
        [null_identifiers_table, null_identifiers_table] =
     (Inr 1,
      \<lparr>df = 0, methods = [''duplicates'', ''null''], flagged = 1,
           description = \<lparr>dcolumns = [''id'', ''x'', ''y''],
                           dcount = [(''id'', 4), (''x'', 2), (''y'', 2)]\<rparr>,
           unique_identifiers = [''x'', ''y'']\<rparr>,
      [null_identifiers_table,
       \<lparr>columns = [''id'', ''x'', ''y'', ''duplicates'', ''null''],
        rows = [[PStr ''a'', PNone, PNone, PInt 0, PInt 2],
                [PStr ''b'', PNone, PNone, PInt 1, PInt 2],
                [PStr ''c'', PStr ''p'', PStr ''r'', PInt 0, PInt 0],
                [PStr ''d'', PStr ''q'', PStr ''s'', PInt 0, PInt 0]]\<rparr>])"
  by code_simp

theorem null_identifiers_match_witness:
  "(\<exists>eng s fl eng1 s1.
      init [] (TableDict null_identifiers_table) None = Inr (eng, s) \<and>
      flag eng NoDf s = (Inr fl, eng1, s1) \<and>
      ''duplicates'' \<in> set (methods eng) \<and> flagged eng < length s \<and>
      s ! flagged eng = null_identifiers_table \<and>
      unique_identifiers eng = [''x'', ''y''] \<and>
      getcol (s1 ! fl) ''duplicates'' ! 1 = PInt 1) \<and>
   wf_frame null_identifiers_table \<and>
   (0::nat) < 1 \<and> 1 < length (rows null_identifiers_table) \<and>
   isnull (getcol null_identifiers_table ''x'' ! 0) \<and>
   getcol null_identifiers_table ''x'' ! 1 = getcol null_identifiers_table ''x'' ! 0 \<and>
   isnull (getcol null_identifiers_table ''y'' ! 0) \<and>
   getcol null_identifiers_table ''y'' ! 1 = getcol null_identifiers_table ''y'' ! 0"
proof -
  define eng where "eng = \<lparr>df = 0, methods = [''duplicates'', ''null''], flagged = 1,
           description = \<lparr>dcolumns = [''id'', ''x'', ''y''],
                           dcount = [(''id'', 4), (''x'', 2), (''y'', 2)]\<rparr>,
           unique_identifiers = [''x'', ''y'']\<rparr>"
  define s where "s = [null_identifiers_table, null_identifiers_table]"
  have i: "init [] (TableDict null_identifiers_table) None = Inr (eng, s)"
    unfolding eng_def s_def by (rule null_identifiers_init)
  obtain fl eng1 s1 where f: "flag eng NoDf s = (Inr fl, eng1, s1)"
    unfolding eng_def s_def using null_identifiers_flag by blast
  have m: "''duplicates'' \<in> set (methods eng)" by (simp add: eng_def)
  have F: "null_identifiers_table = (case NoDf of Df r \<Rightarrow> s ! r | _ \<Rightarrow> s ! flagged eng)"
    by (simp add: eng_def s_def)
  have v: "case NoDf of Df r \<Rightarrow> True | _ \<Rightarrow> flagged eng < length s" by (simp add: eng_def s_def)
  have wf: "wf_frame null_identifiers_table"
    by (simp add: wf_frame_def null_identifiers_table_def)
  have ij: "(0::nat) < 1" "1 < length (rows null_identifiers_table)"
    by (simp_all add: null_identifiers_table_def)
  have c: "isnull (getcol null_identifiers_table ''x'' ! 0)"
    "getcol null_identifiers_table ''x'' ! 1 = getcol null_identifiers_table ''x'' ! 0"
    "isnull (getcol null_identifiers_table ''y'' ! 0)"
    "getcol null_identifiers_table ''y'' ! 1 = getcol null_identifiers_table ''y'' ! 0"
    by (simp_all add: null_identifiers_table_def getcol_def isnull_def)
  have u: "unique_identifiers eng = [''x'', ''y'']" by (simp add: eng_def)
  have nulls: "\<forall>c \<in> set (unique_identifiers eng).
                    isnull (getcol null_identifiers_table c ! 0) \<and>
                    getcol null_identifiers_table c ! 1 = getcol null_identifiers_table c ! 0"
    using c by (simp add: u)
  from null_identifiers_match [OF f m F v wf ij nulls]
  have r: "getcol (s1 ! fl) ''duplicates'' ! 1 = PInt 1" .
  have fs: "flagged eng < length s" "s ! flagged eng = null_identifiers_table"
    by (simp_all add: eng_def s_def)
  have "\<exists>eng s fl eng1 s1.
      init [] (TableDict null_identifiers_table) None = Inr (eng, s) \<and>
      flag eng NoDf s = (Inr fl, eng1, s1) \<and>
      ''duplicates'' \<in> set (methods eng) \<and> flagged eng < length s \<and>
      s ! flagged eng = null_identifiers_table \<and>
      unique_identifiers eng = [''x'', ''y''] \<and>
      getcol (s1 ! fl) ''duplicates'' ! 1 = PInt 1"
    using i f m fs u r by blast
  with wf ij c show ?thesis by (intro conjI)
qed

section \<open>An empty list of methods\<close>

lemma init_empty_methods:
  assumes "table_of s0 table = Some t" and "columns t \<noteq> []"
  shows "\<exists>e s'. init s0 table (Some []) = Inr (e, s') \<and> methods e = []"
  using assms
  by (cases table)
     (auto simp: init_def table_of_def alloc_def describe_with_dtypes_def describe_frame_def
        replace_frame_def Let_def nth_append split: if_splits)

lemma flag_no_methods:
  assumes m: "methods eng = []" and f: "flag eng arg s = (Inr fl, eng1, s1)"
  shows "\<exists>d. self_or_none eng arg s = (Inr (fl, d), s1)
           \<and> eng1 = (if arg = NoDf then eng\<lparr>flagged := fl\<rparr> else eng)"
proof -
  obtain res s0 where so: "self_or_none eng arg s = (res, s0)" by (cases "self_or_none eng arg s")
  from f so obtain fl' d where res: "res = Inr (fl', d)"
    by (cases res) (auto simp: flag_def)
  from f so m show ?thesis unfolding res by (auto simp: flag_def Let_def)
qed

text \<open>
  Claim C10, as stated, fails in its last part: a table may have a data column of its
  own named \<open>duplicates\<close>. With \<open>methods = []\<close>, \<open>flag\<close> returns that table as it is,
  and \<open>clean\<close> then filters by that column; every row is removed when no cell of it
  is 0.
\<close>

theorem clean_filters_own_column:
  "(case init [] (TableDict own_duplicates_table) (Some []) of
      Inl e \<Rightarrow> False
    | Inr (eng, s) \<Rightarrow>
        (case flag eng NoDf s of
           (Inl e, eng1, s1) \<Rightarrow> False
         | (Inr fl, eng1, s1) \<Rightarrow>
             s1 ! fl = own_duplicates_table \<and> length (rows (s1 ! fl)) = 2 \<and>
             (case clean eng1 NoDf s1 of
                (Inl e, eng2, s2) \<Rightarrow> False
              | (Inr cr, eng2, s2) \<Rightarrow> rows (s2 ! cr) = [])))"
  by code_simp

text \<open>
  Claim C10, amended. The constructor accepts an empty methods list: on every table
  with at least one column it returns an engine whose methods are \<open>[]\<close>. With
  \<open>methods = []\<close> every call of \<open>flag\<close> that returns gives a table equal to its
  input, so with neither a \<open>duplicates\<close> nor a \<open>null\<close> column appended; and a
  subsequent \<open>clean\<close> of the same target returns that table with no row removed,
  provided the table has no column of its own named \<open>duplicates\<close>.
\<close>

theorem empty_methods:
  assumes m: "methods eng = []"
      and f: "flag eng arg s = (Inr fl, eng1, s1)"
      and F: "F = (case arg of Df r \<Rightarrow> s ! r | _ \<Rightarrow> s ! flagged eng)"
      and v: "case arg of Df r \<Rightarrow> r < length s | _ \<Rightarrow> True"
      and wf: "wf_frame F"
  shows "(\<forall>s0 table t. table_of s0 table = Some t \<and> columns t \<noteq> [] \<longrightarrow>
            (\<exists>e s'. init s0 table (Some []) = Inr (e, s') \<and> methods e = [])) \<and>
         s1 ! fl = F \<and>
         (\<forall>cr eng2 s2. ''duplicates'' \<notin> set (columns F) \<and>
                        clean eng1 arg s1 = (Inr cr, eng2, s2) \<longrightarrow> s2 ! cr = F)"
proof -
  from flag_no_methods [OF m f] obtain d
    where so: "self_or_none eng arg s = (Inr (fl, d), s1)"
      and e1: "eng1 = (if arg = NoDf then eng\<lparr>flagged := fl\<rparr> else eng)" by blast
  note sn = self_or_none_Inr [OF so]
  from sn(3) F have a: "s1 ! fl = F" by simp
  have F1: "F = (case arg of Df r \<Rightarrow> s1 ! r | _ \<Rightarrow> s1 ! flagged eng1)"
  proof (cases arg)
    case NoDf
    with sn(1,2) e1 F show ?thesis by simp
  next
    case (Df r)
    with sn(1) v F show ?thesis by (simp add: nth_append)
  next
    case NotDf
    with sn(1) e1 F show ?thesis by simp
  qed
  have b: "\<forall>cr eng2 s2. ''duplicates'' \<notin> set (columns F) \<and>
                        clean eng1 arg s1 = (Inr cr, eng2, s2) \<longrightarrow> s2 ! cr = F"
  proof (intro allI impI)
    fix cr eng2 s2
    assume h: "''duplicates'' \<notin> set (columns F) \<and> clean eng1 arg s1 = (Inr cr, eng2, s2)"
    then have c: "clean eng1 arg s1 = (Inr cr, eng2, s2)" by simp
    from clean_result [OF c F1 wf] h show "s2 ! cr = F" by simp
  qed
  have i: "\<forall>s0 table t. table_of s0 table = Some t \<and> columns t \<noteq> [] \<longrightarrow>
            (\<exists>e s'. init s0 table (Some []) = Inr (e, s') \<and> methods e = [])"
    using init_empty_methods by blast
  from i a b show ?thesis by (intro conjI)
qed

lemma quiet_init:
  "init [] (TableDict shared_id_table) (Some []) = Inr (quiet_engine, [shared_id_table, shared_id_table])"
  by code_simp

lemma quiet_flag:
  "flag quiet_engine NoDf [shared_id_table, shared_id_table] =
     (Inr 1, quiet_engine, [shared_id_table, shared_id_table])"
  by code_simp

lemma quiet_clean:
  "clean quiet_engine NoDf [shared_id_table, shared_id_table] =
     (Inr 2, quiet_engine, [shared_id_table, shared_id_table, shared_id_table])"
  by code_simp

theorem empty_methods_witness:
  "methods quiet_engine = [] \<and>
   flag quiet_engine NoDf [shared_id_table, shared_id_table] =
     (Inr 1, quiet_engine, [shared_id_table, shared_id_table]) \<and>
   wf_frame shared_id_table \<and>
   table_of [] (TableDict shared_id_table) = Some shared_id_table \<and>
   columns shared_id_table \<noteq> [] \<and>
   ''duplicates'' \<notin> set (columns shared_id_table) \<and>
   (\<exists>e s'. init [] (TableDict shared_id_table) (Some []) = Inr (e, s') \<and> methods e = []) \<and>
   [shared_id_table, shared_id_table] ! 1 = shared_id_table \<and>
   [shared_id_table, shared_id_table, shared_id_table] ! 2 = shared_id_table"
proof -
  have m: "methods quiet_engine = []" by (simp add: quiet_engine_def)
  have F: "shared_id_table = (case NoDf of Df r \<Rightarrow> [shared_id_table, shared_id_table] ! r
                              | _ \<Rightarrow> [shared_id_table, shared_id_table] ! flagged quiet_engine)"
    by (simp add: quiet_engine_def)
  have v: "case NoDf of Df r \<Rightarrow> r < length [shared_id_table, shared_id_table] | _ \<Rightarrow> True" by simp
  have wf: "wf_frame shared_id_table" by (simp add: wf_frame_def shared_id_table_def)
  have t: "table_of [] (TableDict shared_id_table) = Some shared_id_table"
    by (simp add: table_of_def)
  have c: "columns shared_id_table \<noteq> []" by (simp add: shared_id_table_def)
  have nd: "''duplicates'' \<notin> set (columns shared_id_table)" by (simp add: shared_id_table_def)
  note th = empty_methods [OF m quiet_flag F v wf]
  from th t c have i: "\<exists>e s'. init [] (TableDict shared_id_table) (Some []) = Inr (e, s') \<and> methods e = []"
    by blast
  from th have a: "[shared_id_table, shared_id_table] ! 1 = shared_id_table" by blast
  from th nd quiet_clean
  have b: "[shared_id_table, shared_id_table, shared_id_table] ! 2 = shared_id_table" by blast
  from m quiet_flag wf t c nd i a b show ?thesis by (intro conjI)
qed

section \<open>Values that no rule converts\<close>

text \<open>
  Claim C5 fails on the code: the \<open>raise\<close> of \<open>dtype_change\<close> is the \<open>else\<close> of the outer
  chain only, so it is never reached for a string or a bool. A text that is not numeric
  with the requested tag \<open>int\<close>, and a bool with the requested tag \<open>int\<close>, are returned
  unchanged, and \<open>values_format\<close> returns the table as it was.
\<close>

theorem unconverted_values_pass:
  "dtype_change example_float_repr (PStr ''x'') (PStr ''abc'') ''c'' ''int'' = Inr (PStr ''abc'') \<and>
   dtype_change example_float_repr (PStr ''x'') (PBool True) ''c'' ''int'' = Inr (PBool True) \<and>
   (case init [] (TableDict one_text_table) None of
      Inl e \<Rightarrow> False
    | Inr (eng, s) \<Rightarrow>
        (case values_format example_float_repr eng [(''c'', ''int'')] NoDf (PStr ''x'') s of
           (Inl e, eng1, s1) \<Rightarrow> False
         | (Inr r1, eng1, s1) \<Rightarrow> s1 ! r1 = one_text_table))"
  by code_simp

section \<open>Formatting twice\<close>

lemma digits_of_nonempty: "digits_of n \<noteq> []"
  by (subst digits_of.simps) simp

lemma str_of_int_nonempty: "str_of_int i \<noteq> []"
  by (simp add: str_of_int_def digits_of_nonempty)

lemma float_of_str_cases: "(\<exists>x. float_of_str s = PFloat x) \<or> float_of_str s = PInf True"
  by (simp add: float_of_str_def)

lemma float_of_int_cases: "float_of_int i = Inr x \<Longrightarrow> \<exists>y. x = PFloat y"
  by (auto simp: float_of_int_def split: if_splits)

lemma dtype_change_null:
  "v = PNone \<or> py_eq v (PStr []) \<or> \<not> py_eq v v \<Longrightarrow> dtype_change fr fill v c t = Inr fill"
  by (simp add: dtype_change_def)

lemma dtype_change_same_type:
  "\<not> (v = PNone \<or> py_eq v (PStr []) \<or> \<not> py_eq v v) \<Longrightarrow> type_name v = t
     \<Longrightarrow> dtype_change fr fill v c t = Inr v"
  by (simp add: dtype_change_def)

lemma dtype_change_str:
  assumes "s \<noteq> []" "t \<noteq> ''str''"
  shows "dtype_change fr fill (PStr s) c t =
     (if t = ''int'' \<and> isnumeric s then Inr (PInt (int_of_str s))
      else if t = ''float'' \<and> isdecimal s then Inr (float_of_str s)
      else if t = ''yn'' then
        (if s = ''1'' \<or> s = ''True'' then Inr (PStr ''Yes'')
         else if s = ''0'' \<or> s = ''False'' then Inr (PStr ''No'')
         else Inr (PStr s))
      else Inr (PStr s))"
  using assms by (simp add: dtype_change_def)

lemma dtype_change_bool:
  assumes "t \<noteq> ''bool''"
  shows "dtype_change fr fill (PBool b) c t =
     (if t = ''yn'' then (if b then Inr (PStr ''Yes'') else Inr (PStr ''No'')) else Inr (PBool b))"
  using assms by (simp add: dtype_change_def)

lemma dtype_change_int:
  assumes "t \<noteq> ''int''"
  shows "dtype_change fr fill (PInt i) c t =
     (if t = ''float'' then float_of_int i
      else if t = ''str'' then Inr (PStr (str_of_int i))
      else Inl (NotConverted c ''int'' (str_of_int i) t))"
  using assms by (simp add: dtype_change_def)

lemma dtype_change_float:
  assumes "t \<noteq> ''float''"
  shows "dtype_change fr fill (PFloat x) c t =
     (if t = ''int'' \<and> of_int (floor x) = x then Inr (PInt (floor x))
      else if t = ''str'' then Inr (PStr (fr x))
      else Inl (NotConverted c ''float'' (fr x) t))"
  using assms by (simp add: dtype_change_def float_is_integer_def int_of_float_def)

lemma dtype_change_inf:
  assumes "t \<noteq> ''float''"
  shows "dtype_change fr fill (PInf b) c t =
     (if t = ''str'' then Inr (PStr (if b then ''inf'' else ''-inf''))
      else Inl (NotConverted c ''float'' (if b then ''inf'' else ''-inf'') t))"
  using assms by (simp add: dtype_change_def float_is_integer_def)

lemma settled_str_same: "s \<noteq> [] \<Longrightarrow> settled fr fill c ''str'' (PStr s)"
  by (simp add: settled_def isnull_def dtype_change_same_type)

lemma settled_result:
  assumes d: "dtype_change fr fill v c t = Inr x"
      and f: "settled fr fill c t fill"
      and r: "\<And>q. fr q \<noteq> []"
  shows "settled fr fill c t x"
proof (cases "v = PNone \<or> py_eq v (PStr []) \<or> \<not> py_eq v v")
  case True
  from dtype_change_null [OF True] d have "x = fill" by simp
  with f show ?thesis by simp
next
  case False
  show ?thesis
  proof (cases "type_name v = t")
    case True
    from dtype_change_same_type [OF False True] d have "x = v" by simp
    moreover from False have "\<not> isnull v" by (auto simp: isnull_def)
    ultimately show ?thesis using d by (simp add: settled_def)
  next
    case nt: False
    show ?thesis
    proof (cases v)
      case PNone
      with False show ?thesis by simp
    next
      case (PStr s)
      with False have s: "s \<noteq> []" by auto
      from nt PStr have t: "t \<noteq> ''str''" by auto
      note e = dtype_change_str [OF s t, of fr fill c]
      from d PStr e consider (i) "t = ''int''" "x = PInt (int_of_str s)"
        | (f) "t = ''float''" "x = float_of_str s"
        | (y) "t = ''yn''" "x = PStr ''Yes'' \<or> x = PStr ''No''"
        | (u) "x = PStr s"
        by (auto split: if_splits)
      then show ?thesis
      proof cases
        case i
        then show ?thesis by (simp add: settled_def isnull_def dtype_change_same_type)
      next
        case f
        with float_of_str_cases [of s] show ?thesis
          by (auto simp: settled_def isnull_def dtype_change_same_type)
      next
        case y
        then show ?thesis
          by (auto simp: settled_def isnull_def dtype_change_str)
      next
        case u
        with d PStr show ?thesis by (simp add: settled_def isnull_def)
      qed
    next
      case (PBool b)
      from nt PBool have t: "t \<noteq> ''bool''" by auto
      note e = dtype_change_bool [OF t, of fr fill b c]
      from d PBool e consider (y) "t = ''yn''" "x = PStr ''Yes'' \<or> x = PStr ''No''"
        | (u) "x = PBool b"
        by (auto split: if_splits)
      then show ?thesis
      proof cases
        case y
        then show ?thesis
          by (auto simp: settled_def isnull_def dtype_change_str)
      next
        case u
        with d PBool show ?thesis by (simp add: settled_def isnull_def)
      qed
    next
      case (PInt i)
      from nt PInt have t: "t \<noteq> ''int''" by auto
      note e = dtype_change_int [OF t, of fr fill i c]
      from d PInt e consider (f) "t = ''float''" "float_of_int i = Inr x"
        | (s) "t = ''str''" "x = PStr (str_of_int i)"
        by (auto split: if_splits)
      then show ?thesis
      proof cases
        case f
        with float_of_int_cases [OF f(2)] show ?thesis
          by (auto simp: settled_def isnull_def dtype_change_same_type)
      next
        case s
        then show ?thesis by (simp add: settled_str_same str_of_int_nonempty)
      qed
    next
      case (PFloat q)
      from nt PFloat have t: "t \<noteq> ''float''" by auto
      note e = dtype_change_float [OF t, of fr fill q c]
      from d PFloat e consider (i) "t = ''int''" "x = PInt (floor q)"
        | (s) "t = ''str''" "x = PStr (fr q)"
        by (auto split: if_splits)
      then show ?thesis
      proof cases
        case i
        then show ?thesis by (simp add: settled_def isnull_def dtype_change_same_type)
      next
        case s
        then show ?thesis by (simp add: settled_str_same r)
      qed
    next
      case PNaN
      with False show ?thesis by simp
    next
      case (PInf b)
      from nt PInf have t: "t \<noteq> ''float''" by auto
      note e = dtype_change_inf [OF t, of fr fill b c]
      from d PInf e have "t = ''str''" "x = PStr (if b then ''inf'' else ''-inf'')"
        by (auto split: if_splits)
      then show ?thesis by (simp add: settled_str_same)
    qed
  qed
qed

lemma settled_float_tag:
  assumes "settled fr fill c t x" "is_float x"
  shows "t = ''float''"
proof (rule ccontr)
  assume t: "t \<noteq> ''float''"
  from assms show False
  proof (cases x)
    case (PFloat q)
    with assms(1) dtype_change_float [OF t, of fr fill q c] show False
      by (auto simp: settled_def split: if_splits)
  next
    case (PInf b)
    with assms(1) dtype_change_inf [OF t, of fr fill b c] show False
      by (auto simp: settled_def split: if_splits)
  qed (auto simp: settled_def isnull_def)
qed

lemma settled_float_no_int:
  assumes "settled fr fill c ''float'' x"
  shows "to_float64 x = x"
proof (cases x)
  case (PInt i)
  with assms dtype_change_int [of "''float''" fr fill i c] float_of_int_cases [of i x]
  show ?thesis by (auto simp: settled_def)
next
  case PNone
  with assms show ?thesis by (simp add: settled_def isnull_def)
qed simp_all

lemma infer_settled:
  assumes "\<forall>x \<in> set w. settled fr fill c t x"
  shows "infer_objects w = w"
proof (cases "converts w")
  case False
  then show ?thesis by (simp add: infer_objects_def)
next
  case True
  have nn: "\<not> list_ex (\<lambda>v. v = PNone) w"
    using assms by (auto simp: list_ex_iff settled_def isnull_def)
  with True obtain y where y: "y \<in> set w" "is_float y"
    by (auto simp: converts_def list_ex_iff)
  with assms have "settled fr fill c t y" by simp
  from settled_float_tag [OF this y(2)] have t: "t = ''float''" .
  have "map to_float64 w = w"
    by (rule map_idI) (use assms t settled_float_no_int in blast)
  with True show ?thesis by (simp add: infer_objects_def)
qed

lemma fill_column_settled:
  assumes "\<forall>x \<in> set w. settled fr fill c t x"
  shows "fill_column w v = w"
  unfolding fill_column_def
  by (rule map_idI) (use assms in \<open>auto simp: settled_def\<close>)

lemma apply_series_length: "apply_series f vs = Inr ws \<Longrightarrow> length ws = length vs"
  by (induction vs arbitrary: ws) (auto split: sum.splits)

lemma apply_series_results:
  "apply_series f vs = Inr ws \<Longrightarrow> x \<in> set ws \<Longrightarrow> \<exists>v. f v = Inr x"
  by (induction vs arbitrary: ws) (auto split: sum.splits)

lemma apply_series_fixed: "\<forall>x \<in> set ws. f x = Inr x \<Longrightarrow> apply_series f ws = Inr ws"
  by (induction ws) auto

lemma setcol_getcol_id:
  assumes wf: "wf_frame f" and c: "c \<in> set (columns f)"
  shows "setcol f c (getcol f c) = f"
proof -
  have "map2 (\<lambda>r v. r[index_of c (columns f) := v]) (rows f) (getcol f c) = rows f"
  proof (rule nth_equalityI)
    show "length (map2 (\<lambda>r v. r[index_of c (columns f) := v]) (rows f) (getcol f c)) = length (rows f)"
      by (simp add: length_getcol)
  next
    fix i assume "i < length (map2 (\<lambda>r v. r[index_of c (columns f) := v]) (rows f) (getcol f c))"
    then have i: "i < length (rows f)" by (simp add: length_getcol)
    then show "map2 (\<lambda>r v. r[index_of c (columns f) := v]) (rows f) (getcol f c) ! i = rows f ! i"
      by (simp add: length_getcol getcol_nth)
  qed
  with c show ?thesis by (simp add: setcol_def)
qed

lemma fillna_Inr:
  "fillna f v = Inr g \<Longrightarrow>
     v \<noteq> PNone \<and> columns g = columns f \<and>
     rows g = map (\<lambda>r. map2 (fill_cell f v) (columns f) r) (rows f)"
  by (auto simp: fillna_def split: if_splits)

lemma wf_fillna:
  assumes "fillna f v = Inr g" "wf_frame f"
  shows "wf_frame g"
  using assms fillna_Inr [OF assms(1)]
  by (auto simp: wf_frame_def list_all_iff)

lemma getcol_fillna:
  assumes g: "fillna f v = Inr g" and wf: "wf_frame f" and c: "c \<in> set (columns f)"
  shows "getcol g c = infer_objects (fill_column (getcol f c) v)"
proof (rule nth_equalityI)
  note e = fillna_Inr [OF g]
  show l: "length (getcol g c) = length (infer_objects (fill_column (getcol f c) v))"
    using e by (simp add: length_getcol infer_objects_def fill_column_def)
  fix i assume "i < length (getcol g c)"
  then have i: "i < length (rows f)" using e by (simp add: length_getcol)
  then have "rows f ! i \<in> set (rows f)" by simp
  from wf_rowD [OF wf this] have lr: "length (rows f ! i) = length (columns f)" .
  let ?k = "index_of c (columns f)"
  from c have k: "?k < length (columns f)" by (rule index_of_less)
  have ig: "i < length (rows g)" using e i by simp
  have "getcol g c ! i = fill_cell f v c (rows f ! i ! ?k)"
    using e i k lr c by (simp add: getcol_nth [OF ig] nth_index_of)
  also have "\<dots> = infer_objects (fill_column (getcol f c) v) ! i"
    using i by (simp add: fill_cell_def infer_objects_def fill_column_def length_getcol getcol_nth Let_def)
  finally show "getcol g c ! i = infer_objects (fill_column (getcol f c) v) ! i" .
qed

lemma to_float64_idem: "to_float64 (to_float64 x) = to_float64 x"
  by (cases x) simp_all

lemma isnull_to_float64: "isnull (to_float64 x) = isnull x"
  by (cases x) (simp_all add: isnull_def)

lemma infer_fixed:
  assumes "x \<in> set (infer_objects z)" "converts (infer_objects z)"
  shows "to_float64 x = x"
proof (cases "converts z")
  case True
  with assms(1) show ?thesis by (auto simp: infer_objects_def to_float64_idem)
next
  case False
  with assms(2) show ?thesis by (simp add: infer_objects_def)
qed

lemma infer_no_nulls:
  assumes "\<forall>x \<in> set z. \<not> isnull x"
  shows "\<forall>x \<in> set (infer_objects z). \<not> isnull x"
  using assms by (auto simp: infer_objects_def isnull_to_float64)

lemma fill_column_no_nulls:
  "\<not> isnull v \<Longrightarrow> \<forall>x \<in> set (fill_column z v). \<not> isnull x"
  by (auto simp: fill_column_def)

lemma fill_column_id: "\<forall>x \<in> set z. \<not> isnull x \<Longrightarrow> fill_column z v = z"
  unfolding fill_column_def by (rule map_idI) auto

lemma fillna_again:
  assumes g: "fillna f v = Inr g" and wf: "wf_frame f" and v: "\<not> isnull v"
  shows "fillna g v = Inr g"
proof -
  note e = fillna_Inr [OF g]
  note wg = wf_fillna [OF g wf]
  from wg have dist: "distinct (columns g)" by (simp add: wf_frame_def)
  have cell: "fill_cell g v (columns g ! k) (r ! k) = r ! k"
    if r: "r \<in> set (rows g)" and k: "k < length (columns g)" for r k
  proof -
    let ?c = "columns g ! k"
    from k e have cf: "?c \<in> set (columns f)" by simp
    from k have cg: "?c \<in> set (columns g)" by simp
    let ?col = "getcol g ?c"
    have col: "?col = infer_objects (fill_column (getcol f ?c) v)"
      by (rule getcol_fillna [OF g wf cf])
    have nn: "\<forall>x \<in> set ?col. \<not> isnull x"
      unfolding col by (rule infer_no_nulls, rule fill_column_no_nulls, rule v)
    from r obtain i where i: "i < length (rows g)" "r = rows g ! i" by (auto simp: in_set_conv_nth)
    have rk: "r ! k = ?col ! i"
      using i k dist by (simp add: getcol_nth index_of_nth)
    with i have mem: "r ! k \<in> set ?col" by (simp add: length_getcol)
    with nn have n: "\<not> isnull (r ! k)" by blast
    have fc: "fill_column ?col v = ?col" by (rule fill_column_id [OF nn])
    have "converts ?col \<Longrightarrow> to_float64 (r ! k) = r ! k"
      using mem infer_fixed unfolding col by blast
    with n fc show ?thesis by (auto simp: fill_cell_def Let_def)
  qed
  have "map (\<lambda>r. map2 (fill_cell g v) (columns g) r) (rows g) = rows g"
  proof (rule map_idI)
    fix r assume r: "r \<in> set (rows g)"
    from wf_rowD [OF wg r] have lr: "length r = length (columns g)" .
    show "map2 (fill_cell g v) (columns g) r = r"
      by (rule nth_equalityI) (use lr cell [OF r] in auto)
  qed
  with e show ?thesis by (simp add: fillna_def)
qed

lemma format_columns_first:
  assumes "format_columns fr fill cds r s = (Inr u, s')"
      and "r < length s" "wf_frame (s ! r)" "distinct (map fst cds)"
      and "\<forall>c \<in> set (map fst cds). c \<in> set (columns (s ! r))"
      and "\<forall>(c, t) \<in> set cds. settled fr fill c t fill"
      and "\<And>q. fr q \<noteq> []"
  shows "length s' = length s \<and> (\<forall>k. k \<noteq> r \<longrightarrow> s' ! k = s ! k) \<and>
         wf_frame (s' ! r) \<and> columns (s' ! r) = columns (s ! r) \<and>
         (\<forall>(c, t) \<in> set cds. \<forall>x \<in> set (getcol (s' ! r) c). settled fr fill c t x) \<and>
         (\<forall>c. c \<in> set (columns (s ! r)) \<longrightarrow> c \<notin> set (map fst cds) \<longrightarrow>
               getcol (s' ! r) c = getcol (s ! r) c)"
  using assms
proof (induction cds arbitrary: s)
  case Nil
  then show ?case by simp
next
  case (Cons ct cds)
  obtain c t where ct: "ct = (c, t)" by (cases ct)
  let ?f = "\<lambda>x. dtype_change fr fill x c t"
  let ?T = "s ! r"
  from Cons.prems(1) obtain vs where vs: "apply_series ?f (getcol ?T c) = Inr vs"
    unfolding ct by (cases "apply_series ?f (getcol ?T c)") auto
  from Cons.prems(6) ct have sf: "settled fr fill c t fill" by simp
  have set_vs: "\<forall>x \<in> set vs. settled fr fill c t x"
    using apply_series_results [OF vs] settled_result [OF _ sf Cons.prems(7)] by blast
  have inf: "infer_objects vs = vs" by (rule infer_settled [OF set_vs])
  have len: "length vs = length (rows ?T)"
    using apply_series_length [OF vs] by (simp add: length_getcol)
  from Cons.prems(5) ct have cin: "c \<in> set (columns ?T)" by simp
  let ?G = "setcol ?T c vs"
  let ?s1 = "s[r := ?G]"
  have wfG: "wf_frame ?G" by (rule wf_setcol [OF Cons.prems(3) len])
  have colG: "columns ?G = columns ?T" using cin by (simp add: setcol_columns)
  have s1r: "?s1 ! r = ?G" using Cons.prems(2) by simp
  have rec: "format_columns fr fill cds r ?s1 = (Inr u, s')"
    using Cons.prems(1) vs unfolding ct by (simp add: inf)
  have d: "distinct (map fst cds)" and cnot: "c \<notin> set (map fst cds)"
    using Cons.prems(4) ct by simp_all
  have p5: "\<forall>c \<in> set (map fst cds). c \<in> set (columns (?s1 ! r))"
    using Cons.prems(5) by (simp add: s1r colG)
  have p6: "\<forall>(c, t) \<in> set cds. settled fr fill c t fill" using Cons.prems(6) by simp
  have r1: "r < length ?s1" using Cons.prems(2) by simp
  have wf1: "wf_frame (?s1 ! r)" by (simp only: s1r wfG)
  note ih = Cons.IH [OF rec r1 wf1 d p5 p6 Cons.prems(7)]
  from ih have a: "length s' = length s" by simp
  from ih have b: "\<forall>k. k \<noteq> r \<longrightarrow> s' ! k = s ! k" by simp
  from ih have w: "wf_frame (s' ! r)" by blast
  from ih have cl: "columns (s' ! r) = columns ?T" by (simp add: s1r colG)
  from ih have rest: "\<forall>(c, t) \<in> set cds. \<forall>x \<in> set (getcol (s' ! r) c). settled fr fill c t x"
    by blast
  from ih have keep: "\<And>c'. c' \<in> set (columns ?T) \<Longrightarrow> c' \<notin> set (map fst cds) \<Longrightarrow>
               getcol (s' ! r) c' = getcol ?G c'"
    by (simp add: s1r colG)
  have "getcol (s' ! r) c = vs"
    using keep [OF cin cnot] getcol_setcol_same [OF Cons.prems(3) len] by simp
  with set_vs have hd: "\<forall>x \<in> set (getcol (s' ! r) c). settled fr fill c t x" by simp
  have un: "\<forall>c'. c' \<in> set (columns ?T) \<longrightarrow> c' \<notin> set (map fst (ct # cds)) \<longrightarrow>
               getcol (s' ! r) c' = getcol ?T c'"
  proof (intro allI impI)
    fix c' assume c': "c' \<in> set (columns ?T)" and n: "c' \<notin> set (map fst (ct # cds))"
    from n ct have ne: "c' \<noteq> c" and n': "c' \<notin> set (map fst cds)" by auto
    from keep [OF c' n'] getcol_setcol_other [OF Cons.prems(3) len ne c']
    show "getcol (s' ! r) c' = getcol ?T c'" by simp
  qed
  from a b w cl rest hd un show ?case unfolding ct by simp
qed

lemma format_columns_settled:
  assumes "r < length s" "wf_frame (s ! r)"
      and "\<forall>(c, t) \<in> set cds. c \<in> set (columns (s ! r)) \<and>
                                (\<forall>x \<in> set (getcol (s ! r) c). settled fr fill c t x)"
  shows "format_columns fr fill cds r s = (Inr (), s)"
  using assms(3)
proof (induction cds)
  case Nil
  then show ?case by simp
next
  case (Cons ct cds)
  obtain c t where ct: "ct = (c, t)" by (cases ct)
  from Cons.prems ct have cin: "c \<in> set (columns (s ! r))"
    and st: "\<forall>x \<in> set (getcol (s ! r) c). settled fr fill c t x" by auto
  from st have "\<forall>x \<in> set (getcol (s ! r) c). dtype_change fr fill x c t = Inr x"
    by (simp add: settled_def)
  from apply_series_fixed [OF this]
  have ap: "apply_series (\<lambda>x. dtype_change fr fill x c t) (getcol (s ! r) c) = Inr (getcol (s ! r) c)" .
  have inf: "infer_objects (getcol (s ! r) c) = getcol (s ! r) c" by (rule infer_settled [OF st])
  have sc: "setcol (s ! r) c (getcol (s ! r) c) = s ! r" by (rule setcol_getcol_id [OF assms(2) cin])
  from Cons.prems have "\<forall>(c, t) \<in> set cds. c \<in> set (columns (s ! r)) \<and>
                                (\<forall>x \<in> set (getcol (s ! r) c). settled fr fill c t x)" by simp
  from Cons.IH [OF this] show ?case
    unfolding ct by (simp add: ap inf sc)
qed

lemma values_format_Inr:
  assumes "values_format fr eng cds arg fill s = (Inr r1, eng1, s1)"
  obtains sa g where
      "check_with_headers (map fst cds) (s ! (case arg of Df r' \<Rightarrow> r' | _ \<Rightarrow> df eng)) = Inr ()"
      "format_columns fr fill cds (case arg of Df r' \<Rightarrow> r' | _ \<Rightarrow> df eng) s = (Inr (), sa)"
      "fillna (sa ! (case arg of Df r' \<Rightarrow> r' | _ \<Rightarrow> df eng)) fill = Inr g"
      "r1 = length sa" "s1 = sa @ [g]" "eng1 = eng"
proof -
  let ?r = "case arg of Df r' \<Rightarrow> r' | _ \<Rightarrow> df eng"
  from assms have c: "check_with_headers (map fst cds) (s ! ?r) = Inr ()"
    by (cases "check_with_headers (map fst cds) (s ! ?r)") (auto simp: values_format_def Let_def)
  obtain res sa where f: "format_columns fr fill cds ?r s = (res, sa)"
    by (cases "format_columns fr fill cds ?r s")
  from assms c f have res: "res = Inr ()"
    by (cases res) (auto simp: values_format_def Let_def)
  from assms c f res obtain g where g: "fillna (sa ! ?r) fill = Inr g"
    by (cases "fillna (sa ! ?r) fill") (auto simp: values_format_def Let_def)
  from assms c f res g have "r1 = length sa" "s1 = sa @ [g]" "eng1 = eng"
    by (auto simp: values_format_def Let_def alloc_def)
  with c f res g that show thesis by blast
qed

text \<open>
  Claim C9, as stated, fails: with \<open>fill_empty = 5\<close> and the requested tag \<open>str\<close>, the
  first application puts the integer 5 into a missing cell, and the second application
  turns that 5 into the text \<open>"5"\<close>.
\<close>

theorem second_pass_changes_fill:
  "(case init [] (TableDict one_null_table) None of
      Inl e \<Rightarrow> False
    | Inr (eng, s) \<Rightarrow>
        (case values_format example_float_repr eng [(''c'', ''str'')] NoDf (PInt 5) s of
           (Inl e, eng1, s1) \<Rightarrow> False
         | (Inr r1, eng1, s1) \<Rightarrow>
             rows (s1 ! r1) = [[PInt 5]] \<and>
             (case values_format example_float_repr eng1 [(''c'', ''str'')] (Df r1) (PInt 5) s1 of
                (Inl e, eng2, s2) \<Rightarrow> False
              | (Inr r2, eng2, s2) \<Rightarrow> rows (s2 ! r2) = [[PStr ''5'']] \<and> rows (s2 ! r1) = [[PStr ''5'']])))"
  by code_simp

text \<open>
  Claim C9, amended. Let a first application of \<open>values_format\<close> succeed on a table
  with distinct column labels, for a \<open>fill_empty\<close> that is not missing (neither
  \<open>None\<close>, for which the call fails, nor \<open>nan\<close>) and that the coercion itself leaves
  unchanged under every requested tag. Then a second application with the same
  \<open>columns_dtypes\<close> and \<open>fill_empty\<close>, to the table the first one returned, also
  succeeds and changes no value: it returns a table equal to the one it was given and
  leaves every existing table as it was. (The rendering \<open>str\<close> gives of a float is
  never the empty string.)
\<close>

theorem values_format_twice:
  assumes first: "values_format fr eng cds arg fill s = (Inr r1, eng1, s1)"
      and r: "(case arg of Df r' \<Rightarrow> r' | _ \<Rightarrow> df eng) < length s"
      and wf: "wf_frame (s ! (case arg of Df r' \<Rightarrow> r' | _ \<Rightarrow> df eng))"
      and keys: "distinct (map fst cds)"
      and nn: "\<not> isnull fill"
      and stable: "\<forall>(c, t) \<in> set cds. dtype_change fr fill fill c t = Inr fill"
      and fr: "\<forall>q. fr q \<noteq> []"
  shows "values_format fr eng1 cds (Df r1) fill s1 = (Inr (length s1), eng1, s1 @ [s1 ! r1])"
proof (rule values_format_Inr [OF first])
  let ?r = "case arg of Df r' \<Rightarrow> r' | _ \<Rightarrow> df eng"
  fix sa g
  assume c: "check_with_headers (map fst cds) (s ! ?r) = Inr ()"
    and f: "format_columns fr fill cds ?r s = (Inr (), sa)"
    and g: "fillna (sa ! ?r) fill = Inr g"
    and r1: "r1 = length sa" and s1: "s1 = sa @ [g]" and e1: "eng1 = eng"
  from c have kin: "\<forall>c \<in> set (map fst cds). c \<in> set (columns (s ! ?r))"
    by (auto simp: check_with_headers_def list_ex_iff split: if_splits)
  from stable nn have sf: "\<forall>(c, t) \<in> set cds. settled fr fill c t fill"
    by (auto simp: settled_def)
  from fr have fr': "\<And>q. fr q \<noteq> []" by simp
  note fc = format_columns_first [OF f r wf keys kin sf fr']
  from fc have wa: "wf_frame (sa ! ?r)" and ca: "columns (sa ! ?r) = columns (s ! ?r)"
    and sa: "\<forall>(c, t) \<in> set cds. \<forall>x \<in> set (getcol (sa ! ?r) c). settled fr fill c t x"
    by blast+
  note wg = wf_fillna [OF g wa]
  from fillna_Inr [OF g] ca have cg: "columns g = columns (s ! ?r)" by simp
  have sg: "\<forall>(c, t) \<in> set cds. c \<in> set (columns g) \<and>
                                (\<forall>x \<in> set (getcol g c). settled fr fill c t x)"
  proof (intro ballI, clarify)
    fix c t assume ct: "(c, t) \<in> set cds"
    with kin have cin: "c \<in> set (columns (s ! ?r))" by force
    then have cina: "c \<in> set (columns (sa ! ?r))" by (simp add: ca)
    from sa ct have st: "\<forall>x \<in> set (getcol (sa ! ?r) c). settled fr fill c t x" by blast
    have "getcol g c = infer_objects (fill_column (getcol (sa ! ?r) c) fill)"
      by (rule getcol_fillna [OF g wa cina])
    also have "\<dots> = getcol (sa ! ?r) c"
      by (simp add: fill_column_settled [OF st] infer_settled [OF st])
    finally have "getcol g c = getcol (sa ! ?r) c" .
    with st cin cg show "c \<in> set (columns g) \<and> (\<forall>x \<in> set (getcol g c). settled fr fill c t x)"
      by simp
  qed
  have at: "s1 ! r1 = g" by (simp add: s1 r1)
  have lt: "r1 < length s1" by (simp add: s1 r1)
  have chk: "check_with_headers (map fst cds) (s1 ! r1) = Inr ()"
    using kin by (auto simp: check_with_headers_def list_ex_iff at cg)
  have fmt: "format_columns fr fill cds r1 s1 = (Inr (), s1)"
  proof (rule format_columns_settled [OF lt])
    show "wf_frame (s1 ! r1)" unfolding at by (rule wg)
    show "\<forall>(c, t) \<in> set cds. c \<in> set (columns (s1 ! r1)) \<and>
            (\<forall>x \<in> set (getcol (s1 ! r1) c). settled fr fill c t x)"
      unfolding at by (rule sg)
  qed
  have fil: "fillna (s1 ! r1) fill = Inr (s1 ! r1)"
    unfolding at by (rule fillna_again [OF g wa nn])
  show ?thesis
    by (simp add: values_format_def chk fmt fil alloc_def Let_def e1)
qed

lemma mixed_first:
  "values_format example_float_repr bare_engine
       [(''n'', ''int''), (''g'', ''yn''), (''s'', ''float'')] (Df 0) (PStr ''None'') [mixed_table] =
     (Inr 1, bare_engine,
      [\<lparr>columns = [''n'', ''g'', ''s''],
        rows = [[PInt 12, PStr ''Yes'', PFloat 1], [PStr ''None'', PStr ''None'', PFloat 2]]\<rparr>,
       \<lparr>columns = [''n'', ''g'', ''s''],
        rows = [[PInt 12, PStr ''Yes'', PFloat 1], [PStr ''None'', PStr ''None'', PFloat 2]]\<rparr>])"
  by code_simp

theorem values_format_twice_witness:
  "values_format example_float_repr bare_engine
       [(''n'', ''int''), (''g'', ''yn''), (''s'', ''float'')] (Df 0) (PStr ''None'') [mixed_table] =
     (Inr 1, bare_engine,
      [\<lparr>columns = [''n'', ''g'', ''s''],
        rows = [[PInt 12, PStr ''Yes'', PFloat 1], [PStr ''None'', PStr ''None'', PFloat 2]]\<rparr>,
       \<lparr>columns = [''n'', ''g'', ''s''],
        rows = [[PInt 12, PStr ''Yes'', PFloat 1], [PStr ''None'', PStr ''None'', PFloat 2]]\<rparr>]) \<and>
   wf_frame mixed_table \<and> \<not> isnull (PStr ''None'') \<and>
   dtype_change example_float_repr (PStr ''None'') (PStr ''None'') ''n'' ''int'' = Inr (PStr ''None'') \<and>
   dtype_change example_float_repr (PStr ''None'') (PStr ''None'') ''g'' ''yn'' = Inr (PStr ''None'') \<and>
   dtype_change example_float_repr (PStr ''None'') (PStr ''None'') ''s'' ''float'' = Inr (PStr ''None'') \<and>
   values_format example_float_repr bare_engine
       [(''n'', ''int''), (''g'', ''yn''), (''s'', ''float'')] (Df 1) (PStr ''None'')
       [\<lparr>columns = [''n'', ''g'', ''s''],
        rows = [[PInt 12, PStr ''Yes'', PFloat 1], [PStr ''None'', PStr ''None'', PFloat 2]]\<rparr>,
       \<lparr>columns = [''n'', ''g'', ''s''],
        rows = [[PInt 12, PStr ''Yes'', PFloat 1], [PStr ''None'', PStr ''None'', PFloat 2]]\<rparr>] =
     (Inr 2, bare_engine,
      [\<lparr>columns = [''n'', ''g'', ''s''],
        rows = [[PInt 12, PStr ''Yes'', PFloat 1], [PStr ''None'', PStr ''None'', PFloat 2]]\<rparr>,
       \<lparr>columns = [''n'', ''g'', ''s''],
        rows = [[PInt 12, PStr ''Yes'', PFloat 1], [PStr ''None'', PStr ''None'', PFloat 2]]\<rparr>,
       \<lparr>columns = [''n'', ''g'', ''s''],
        rows = [[PInt 12, PStr ''Yes'', PFloat 1], [PStr ''None'', PStr ''None'', PFloat 2]]\<rparr>])"
proof -
  have r: "(case Df 0 of Df r' \<Rightarrow> r' | _ \<Rightarrow> df bare_engine) < length [mixed_table]" by simp
  have wf0: "wf_frame mixed_table" by (simp add: wf_frame_def mixed_table_def)
  then have wf: "wf_frame ([mixed_table] ! (case Df 0 of Df r' \<Rightarrow> r' | _ \<Rightarrow> df bare_engine))" by simp
  have keys: "distinct (map fst [(''n'', ''int''), (''g'', ''yn''), (''s'', ''float'')])" by simp
  have nn: "\<not> isnull (PStr ''None'')" by (simp add: isnull_def)
  have d: "dtype_change example_float_repr (PStr ''None'') (PStr ''None'') ''n'' ''int'' = Inr (PStr ''None'')"
    "dtype_change example_float_repr (PStr ''None'') (PStr ''None'') ''g'' ''yn'' = Inr (PStr ''None'')"
    "dtype_change example_float_repr (PStr ''None'') (PStr ''None'') ''s'' ''float'' = Inr (PStr ''None'')"
    by code_simp+
  have stable: "\<forall>(c, t) \<in> set [(''n'', ''int''), (''g'', ''yn''), (''s'', ''float'')].
                  dtype_change example_float_repr (PStr ''None'') (PStr ''None'') c t = Inr (PStr ''None'')"
    using d by simp
  have fr: "\<forall>q. example_float_repr q \<noteq> []" by (simp add: example_float_repr_def)
  from values_format_twice [OF mixed_first r wf keys nn stable fr]
  have second: "values_format example_float_repr bare_engine
       [(''n'', ''int''), (''g'', ''yn''), (''s'', ''float'')] (Df 1) (PStr ''None'')
       [\<lparr>columns = [''n'', ''g'', ''s''],
        rows = [[PInt 12, PStr ''Yes'', PFloat 1], [PStr ''None'', PStr ''None'', PFloat 2]]\<rparr>,
       \<lparr>columns = [''n'', ''g'', ''s''],
        rows = [[PInt 12, PStr ''Yes'', PFloat 1], [PStr ''None'', PStr ''None'', PFloat 2]]\<rparr>] =
     (Inr 2, bare_engine,
      [\<lparr>columns = [''n'', ''g'', ''s''],
        rows = [[PInt 12, PStr ''Yes'', PFloat 1], [PStr ''None'', PStr ''None'', PFloat 2]]\<rparr>,
       \<lparr>columns = [''n'', ''g'', ''s''],
        rows = [[PInt 12, PStr ''Yes'', PFloat 1], [PStr ''None'', PStr ''None'', PFloat 2]]\<rparr>,
       \<lparr>columns = [''n'', ''g'', ''s''],
        rows = [[PInt 12, PStr ''Yes'', PFloat 1], [PStr ''None'', PStr ''None'', PFloat 2]]\<rparr>])"
    by simp
  from mixed_first wf0 nn d second show ?thesis by (intro conjI)
qed

end
